theory Spec2Isabelle
  imports Main "HOL-Library.Word" "HOL-Library.Multiset"
begin

section \<open>Atomic primitives and the interleaving of threads\<close>

text \<open>
  The programs of this repository are C++ threads that communicate through
  atomic objects. Every thread is embedded as a step function: one step
  performs the thread's next access to shared memory together with the purely local
  computation around it, on the shared state \<open>'g\<close> and the thread's own variables \<open>'l\<close>.
  A schedule is a list of entries \<open>(t, c)\<close>: thread \<open>t\<close> takes its next step, and \<open>c\<close>
  resolves what the step leaves open (whether a weak compare-and-swap fails spuriously,
  which address the allocator returns). Quantifying over schedules covers every
  interleaving of the threads' atomic accesses. For the counters and the stack's
  \<open>head\<close> this is the whole behaviour: a read-modify-write on an atomic object acts on the
  latest value of that object, whatever the memory order given. Where the memory order
  is what a claim is about (the handshake), the memory keeps the writes and each
  thread's view of them.
\<close>

text \<open>A C++ int: 32 bits, read as two's complement by \<open>sint\<close>.\<close>

type_synonym cint = "32 word"

text \<open>
  \<^verbatim>\<open>a.fetch_add(d)\<close> on an atomic int: the new value of the object and the value
  returned (the old one). The addition wraps around (the standard defines it so
  for atomic integers).
\<close>

definition fetch_add :: "cint \<Rightarrow> cint \<Rightarrow> cint \<times> cint" where
  "fetch_add a d = (a + d, a)"

text \<open>
  \<^verbatim>\<open>a.compare_exchange_weak(expected, desired)\<close>, with \<open>cur\<close> the value of the object:
  the result, the new value of the object and the new value of \<open>expected\<close>. The
  exchange happens when the object equals \<open>expected\<close> and the operation does not fail
  spuriously (\<open>spur\<close>); otherwise \<open>expected\<close> is overwritten with the value read.
\<close>

definition compare_exchange_weak :: "bool \<Rightarrow> 'a \<Rightarrow> 'a \<Rightarrow> 'a \<Rightarrow> bool \<times> 'a \<times> 'a" where
  "compare_exchange_weak spur cur expected desired =
     (if cur = expected \<and> \<not> spur then (True, desired, expected) else (False, cur, cur))"

text \<open>
  One entry of a schedule. An entry that names no thread of the system changes nothing.
\<close>

definition sched_step ::
  "('c \<Rightarrow> 'g \<Rightarrow> 'l \<Rightarrow> 'g \<times> 'l) \<Rightarrow> 'g \<times> 'l list \<Rightarrow> nat \<times> 'c \<Rightarrow> 'g \<times> 'l list" where
  "sched_step stp s e =
     (case s of (g, ls) \<Rightarrow> case e of (t, c) \<Rightarrow>
        if t < length ls
        then (case stp c g (ls ! t) of (g', l') \<Rightarrow> (g', ls[t := l']))
        else (g, ls))"

definition run ::
  "('c \<Rightarrow> 'g \<Rightarrow> 'l \<Rightarrow> 'g \<times> 'l) \<Rightarrow> (nat \<times> 'c) list \<Rightarrow> 'g \<times> 'l list \<Rightarrow> 'g \<times> 'l list" where
  "run stp sch s = foldl (sched_step stp) s sch"

text \<open>
  One thread seen alone: at each of its steps it finds the shared state in some
  condition \<open>g\<close>, whatever the other threads did in between. \<open>thread_run\<close> gives the
  thread's variables after the steps \<open>envs\<close>, each a pair of the choice and the shared
  state found.
\<close>

definition thread_run :: "('c \<Rightarrow> 'g \<Rightarrow> 'l \<Rightarrow> 'g \<times> 'l) \<Rightarrow> ('c \<times> 'g) list \<Rightarrow> 'l \<Rightarrow> 'l" where
  "thread_run stp envs l = foldl (\<lambda>l e. snd (stp (fst e) (snd e) l)) l envs"

text \<open>
  One thread run alone for a while: \<open>solo\<close> gives the shared state and the thread's
  variables after the thread has taken the steps \<open>cs\<close> with no step of another thread
  in between.
\<close>

definition solo :: "('c \<Rightarrow> 'g \<Rightarrow> 'l \<Rightarrow> 'g \<times> 'l) \<Rightarrow> 'c list \<Rightarrow> 'g \<times> 'l \<Rightarrow> 'g \<times> 'l" where
  "solo stp cs s = foldl (\<lambda>s c. stp c (fst s) (snd s)) s cs"

section \<open>02: the atomic counter\<close>

text \<open>
  \<^verbatim>\<open>worker_atomic\<close>: \<open>n\<close> iterations (1000000 in the source) of
  \<^verbatim>\<open>counter.fetch_add(1, relaxed)\<close>. The thread's only variable is the loop index \<open>i\<close>;
  the value \<open>fetch_add\<close> returns is discarded. A thread whose loop has ended does nothing.
\<close>

definition worker_atomic_step :: "nat \<Rightarrow> unit \<Rightarrow> cint \<Rightarrow> nat \<Rightarrow> cint \<times> nat" where
  "worker_atomic_step n c counter i =
     (if i < n then (fst (fetch_add counter 1), i + 1) else (counter, i))"

text \<open>\<^verbatim>\<open>main\<close>: the counter starts at 0 and \<open>N\<close> threads (4 in the source) are started.\<close>

definition atomic_init :: "nat \<Rightarrow> cint \<times> nat list" where
  "atomic_init N = (0, replicate N 0)"

definition atomic_joined :: "nat \<Rightarrow> cint \<times> nat list \<Rightarrow> bool" where
  "atomic_joined n s = list_all (\<lambda>i. \<not> i < n) (snd s)"

section \<open>04: the bounded increment\<close>

text \<open>
  \<^verbatim>\<open>bounded_increment(v)\<close>. Control is either before the load, or at the loop
  condition with the local \<open>old\<close>, or past the return. The loop condition
  \<^verbatim>\<open>old < 100 && !v.compare_exchange_weak(old, old + 1)\<close> is one step: the comparison
  is local, and the compare-and-swap (attempted only when \<open>old < 100\<close>) is the access
  to \<open>v\<close>. The loop body is empty.
\<close>

datatype bi_pc = BI_load | BI_loop cint | BI_ret

definition bounded_increment_step :: "bool \<Rightarrow> cint \<Rightarrow> bi_pc \<Rightarrow> cint \<times> bi_pc" where
  "bounded_increment_step spur v pc =
     (case pc of
        BI_load \<Rightarrow> (v, BI_loop v)
      | BI_loop old \<Rightarrow>
          if sint old < 100
          then (case compare_exchange_weak spur v old (old + 1) of
                  (ok, v', old') \<Rightarrow> if ok then (v', BI_ret) else (v', BI_loop old'))
          else (v, BI_ret)
      | BI_ret \<Rightarrow> (v, BI_ret))"

text \<open>
  \<^verbatim>\<open>worker_cas\<close>: \<open>n\<close> calls (1000000 in the source) of \<^verbatim>\<open>bounded_increment(counter)\<close>.
  The thread's variables are the loop index and the control point of the call in progress.
\<close>

definition worker_cas_step :: "nat \<Rightarrow> bool \<Rightarrow> cint \<Rightarrow> nat \<times> bi_pc \<Rightarrow> cint \<times> nat \<times> bi_pc" where
  "worker_cas_step n spur v l =
     (case l of (i, pc) \<Rightarrow>
        if i < n
        then (case bounded_increment_step spur v pc of
                (v', pc') \<Rightarrow> if pc' = BI_ret then (v', i + 1, BI_load) else (v', i, pc'))
        else (v, i, pc))"

text \<open>
  What a thread last saw of the shared location: a load and a compare-and-swap both
  read it. \<open>bi_seen\<close> follows one step of \<^verbatim>\<open>bounded_increment\<close> from outside and
  records the value the location held at that step, when the step read it.
\<close>

definition bi_seen :: "bool \<Rightarrow> cint \<Rightarrow> bi_pc \<Rightarrow> cint option \<Rightarrow> cint option" where
  "bi_seen spur v pc seen =
     (case pc of
        BI_load \<Rightarrow> Some v
      | BI_loop old \<Rightarrow> if sint old < 100 then Some v else seen
      | BI_ret \<Rightarrow> seen)"

section \<open>05: the unbounded increment by compare-and-swap\<close>

text \<open>
  \<^verbatim>\<open>lock_free_increment()\<close>: the same loop with no bound on \<open>old\<close>. The sum \<open>old + 1\<close> is
  taken on 32 bits.
\<close>

datatype lf_pc = LF_load | LF_loop cint | LF_ret

definition lock_free_increment_step :: "bool \<Rightarrow> cint \<Rightarrow> lf_pc \<Rightarrow> cint \<times> lf_pc" where
  "lock_free_increment_step spur counter pc =
     (case pc of
        LF_load \<Rightarrow> (counter, LF_loop counter)
      | LF_loop old \<Rightarrow>
          (case compare_exchange_weak spur counter old (old + 1) of
             (ok, v', old') \<Rightarrow> if ok then (v', LF_ret) else (v', LF_loop old'))
      | LF_ret \<Rightarrow> (counter, LF_ret))"

definition lf_seen :: "bool \<Rightarrow> cint \<Rightarrow> lf_pc \<Rightarrow> cint option \<Rightarrow> cint option" where
  "lf_seen spur v pc seen =
     (case pc of LF_load \<Rightarrow> Some v | LF_loop old \<Rightarrow> Some v | LF_ret \<Rightarrow> seen)"

section \<open>09: compare-and-swap with and without backoff\<close>

record globals09 =
  counter_no_backoff :: cint
  counter_with_backoff :: cint
  failed_cas_count_no_backoff :: cint
  failed_cas_count_with_backoff :: cint

text \<open>
  \<^verbatim>\<open>worker_no_backoff\<close>, \<open>n\<close> iterations (\<^verbatim>\<open>ITERATIONS\<close>). Control is before the load,
  at the compare-and-swap with the local \<open>old\<close>, or in the loop body before the
  \<^verbatim>\<open>fetch_add\<close> on the failure count.
\<close>

datatype nb_pc = NB_load | NB_cas cint | NB_count cint

definition worker_no_backoff_step ::
  "nat \<Rightarrow> bool \<Rightarrow> globals09 \<Rightarrow> nat \<times> nb_pc \<Rightarrow> globals09 \<times> nat \<times> nb_pc" where
  "worker_no_backoff_step n spur g l =
     (case l of (i, pc) \<Rightarrow>
        if i < n
        then (case pc of
                NB_load \<Rightarrow> (g, i, NB_cas (counter_no_backoff g))
              | NB_cas old \<Rightarrow>
                  (case compare_exchange_weak spur (counter_no_backoff g) old (old + 1) of
                     (ok, v', old') \<Rightarrow>
                       if ok then (g\<lparr>counter_no_backoff := v'\<rparr>, i + 1, NB_load)
                       else (g\<lparr>counter_no_backoff := v'\<rparr>, i, NB_count old'))
              | NB_count old \<Rightarrow>
                  (g\<lparr>failed_cas_count_no_backoff :=
                       fst (fetch_add (failed_cas_count_no_backoff g) 1)\<rparr>, i, NB_cas old))
        else (g, i, pc))"

text \<open>
  \<^verbatim>\<open>worker_with_backoff\<close>. Control is before the load (which also sets
  \<^verbatim>\<open>backoff = 1\<close>), at the compare-and-swap with the locals \<open>old\<close> and \<open>backoff\<close>, or in
  the pause loop with \<open>old\<close>, \<open>backoff\<close> and the index \<open>j\<close>. One step of the pause loop
  with \<open>j < backoff\<close> is one pause instruction; the step with \<open>j \<ge> backoff\<close> leaves the
  loop, assigns \<^verbatim>\<open>backoff = std::min(backoff * 2, 64)\<close> and does the \<^verbatim>\<open>fetch_add\<close> on
  the failure count.
\<close>

datatype wb_pc = WB_load | WB_cas cint int | WB_pause cint int int

definition worker_with_backoff_step ::
  "nat \<Rightarrow> bool \<Rightarrow> globals09 \<Rightarrow> nat \<times> wb_pc \<Rightarrow> globals09 \<times> nat \<times> wb_pc" where
  "worker_with_backoff_step n spur g l =
     (case l of (i, pc) \<Rightarrow>
        if i < n
        then (case pc of
                WB_load \<Rightarrow> (g, i, WB_cas (counter_with_backoff g) 1)
              | WB_cas old backoff \<Rightarrow>
                  (case compare_exchange_weak spur (counter_with_backoff g) old (old + 1) of
                     (ok, v', old') \<Rightarrow>
                       if ok then (g\<lparr>counter_with_backoff := v'\<rparr>, i + 1, WB_load)
                       else (g\<lparr>counter_with_backoff := v'\<rparr>, i, WB_pause old' backoff 0))
              | WB_pause old backoff j \<Rightarrow>
                  if j < backoff then (g, i, WB_pause old backoff (j + 1))
                  else (g\<lparr>failed_cas_count_with_backoff :=
                            fst (fetch_add (failed_cas_count_with_backoff g) 1)\<rparr>,
                        i, WB_cas old (min (backoff * 2) 64)))
        else (g, i, pc))"

text \<open>
  \<^verbatim>\<open>main\<close>: the two tests one after the other. Each stores 0 in its counter and its
  failure count, starts \<open>N\<close> threads (\<^verbatim>\<open>NUM_THREADS\<close>) and joins them; \<open>sch1\<close> and \<open>sch2\<close>
  are the schedules of the two tests. The result is the shared state and the threads'
  variables of both tests.
\<close>

definition main09 ::
  "nat \<Rightarrow> nat \<Rightarrow> (nat \<times> bool) list \<Rightarrow> (nat \<times> bool) list \<Rightarrow> globals09
     \<Rightarrow> globals09 \<times> (nat \<times> nb_pc) list \<times> (nat \<times> wb_pc) list" where
  "main09 N n sch1 sch2 g0 =
     (case run (worker_no_backoff_step n) sch1
             (g0\<lparr>counter_no_backoff := 0, failed_cas_count_no_backoff := 0\<rparr>,
              replicate N (0, NB_load)) of
        (g1, ls1) \<Rightarrow>
          (case run (worker_with_backoff_step n) sch2
                  (g1\<lparr>counter_with_backoff := 0, failed_cas_count_with_backoff := 0\<rparr>,
                   replicate N (0, WB_load)) of
             (g2, ls2) \<Rightarrow> (g2, ls1, ls2)))"

definition joined09 :: "nat \<Rightarrow> globals09 \<times> (nat \<times> nb_pc) list \<times> (nat \<times> wb_pc) list \<Rightarrow> bool" where
  "joined09 n r =
     (case r of (g, ls1, ls2) \<Rightarrow>
        list_all (\<lambda>l. \<not> fst l < n) ls1 \<and> list_all (\<lambda>l. \<not> fst l < n) ls2)"

text \<open>
  An observer of one thread of \<^verbatim>\<open>worker_with_backoff\<close>, outside the thread. It
  counts \<open>k\<close>, the compare-and-swap failures of the retry sequence in progress, and \<open>p\<close>,
  the pause instructions executed since the last failure. A failure is read off the
  result of \<^verbatim>\<open>compare_exchange_weak\<close> on the memory the thread finds, not off the
  place the thread goes to next; the load that opens an outer iteration starts a new
  sequence; a pause is a turn of the pause loop with \<open>j < backoff\<close>.
\<close>

definition wb_observe ::
  "nat \<Rightarrow> bool \<Rightarrow> globals09 \<Rightarrow> nat \<times> wb_pc \<Rightarrow> nat \<times> nat \<Rightarrow> nat \<times> nat" where
  "wb_observe n spur g l kp =
     (case snd l of
        WB_load \<Rightarrow> (0, 0)
      | WB_cas old backoff \<Rightarrow>
          if fst l < n \<and> \<not> fst (compare_exchange_weak spur (counter_with_backoff g) old (old + 1))
          then (Suc (fst kp), 0) else kp
      | WB_pause old backoff j \<Rightarrow>
          if fst l < n \<and> j < backoff then (fst kp, Suc (snd kp)) else kp)"

section \<open>07: the producer and the consumers\<close>

text \<open>
  The handshake is about memory ordering, so its memory keeps more than the current
  values. Each location keeps the list of the writes made to it, oldest first; the
  position of a write in the list is its timestamp. \<open>data\<close> is the plain int,
  \<open>ready\<close> the atomic flag; a write to \<open>ready\<close> is stored with the view of \<open>data\<close> it
  releases. A thread's view holds, for each location, the timestamp of the latest
  write the thread knows of. These are the release and acquire rules of the C++ memory
  model in operational form, for one plain location and one atomic flag.
\<close>

record hs_mem =
  data_hist :: "cint list"
  ready_hist :: "(bool \<times> nat) list"

record hs_view =
  v_data :: nat
  v_ready :: nat

text \<open>
  Control points of \<^verbatim>\<open>producer\<close> (before the sleep, before \<^verbatim>\<open>data = 42\<close>, before the
  store to \<open>ready\<close>, done) and of the consumers (in the polling loop, before the use of
  \<open>data\<close>, done with the value read, or aborted by the assertion). The flag of a
  consumer's control point is true for \<^verbatim>\<open>consumer_correct\<close>, whose load is
  \<^verbatim>\<open>memory_order_acquire\<close>, and false for \<^verbatim>\<open>consumer_broken\<close>, whose load is
  \<^verbatim>\<open>memory_order_relaxed\<close>.
\<close>

datatype hs_pc =
  P_sleep | P_write | P_signal | P_done
  | C_wait bool | C_use bool | C_done bool cint | C_abort

text \<open>
  \<^verbatim>\<open>producer\<close>: the plain write is appended to the writes of \<open>data\<close> and enters the
  producer's view; the release store is appended to the writes of \<open>ready\<close> together
  with the producer's view of \<open>data\<close>.
\<close>

definition producer_step :: "hs_mem \<Rightarrow> hs_pc \<times> hs_view \<Rightarrow> hs_mem \<times> hs_pc \<times> hs_view" where
  "producer_step mem l =
     (case l of (pc, vw) \<Rightarrow>
        (case pc of
           P_sleep \<Rightarrow> (mem, P_write, vw)
         | P_write \<Rightarrow>
             (mem\<lparr>data_hist := data_hist mem @ [42]\<rparr>, P_signal,
              vw\<lparr>v_data := length (data_hist mem)\<rparr>)
         | P_signal \<Rightarrow>
             (mem\<lparr>ready_hist := ready_hist mem @ [(True, v_data vw)]\<rparr>, P_done,
              vw\<lparr>v_ready := length (ready_hist mem)\<rparr>)
         | _ \<Rightarrow> (mem, pc, vw)))"

text \<open>
  The consumers. A load of \<open>ready\<close> reads the write with the timestamp \<open>ts\<close>, which
  must not be older than the consumer's view of \<open>ready\<close> (otherwise the entry is no
  step); an acquire load joins the view stored with that write into the consumer's
  view of \<open>data\<close>, a relaxed load does not. The plain read of \<open>data\<close> returns a write not
  older than the consumer's view of \<open>data\<close>. \<^verbatim>\<open>consumer_correct\<close> then asserts
  \<^verbatim>\<open>data == 42\<close>.
\<close>

definition consumer_step :: "nat \<Rightarrow> hs_mem \<Rightarrow> hs_pc \<times> hs_view \<Rightarrow> hs_mem \<times> hs_pc \<times> hs_view" where
  "consumer_step ts mem l =
     (case l of (pc, vw) \<Rightarrow>
        (case pc of
           C_wait acq \<Rightarrow>
             if v_ready vw \<le> ts \<and> ts < length (ready_hist mem)
             then (case ready_hist mem ! ts of
                     (b, w) \<Rightarrow>
                       (mem, if b then C_use acq else C_wait acq,
                        vw\<lparr>v_ready := ts, v_data := if acq then max (v_data vw) w else v_data vw\<rparr>))
             else (mem, pc, vw)
         | C_use acq \<Rightarrow>
             if v_data vw \<le> ts \<and> ts < length (data_hist mem)
             then (mem, if acq \<and> data_hist mem ! ts \<noteq> 42 then C_abort
                        else C_done acq (data_hist mem ! ts), vw)
             else (mem, pc, vw)
         | _ \<Rightarrow> (mem, pc, vw)))"

definition handshake_step :: "nat \<Rightarrow> hs_mem \<Rightarrow> hs_pc \<times> hs_view \<Rightarrow> hs_mem \<times> hs_pc \<times> hs_view" where
  "handshake_step ts mem l =
     (case fst l of
        C_wait acq \<Rightarrow> consumer_step ts mem l
      | C_use acq \<Rightarrow> consumer_step ts mem l
      | _ \<Rightarrow> producer_step mem l)"

text \<open>
  \<^verbatim>\<open>main\<close>, one test: \<open>data\<close> is 0 and \<open>ready\<close> is false when the two threads are created,
  and both threads know these writes.
\<close>

definition handshake_init :: "bool \<Rightarrow> hs_mem \<times> (hs_pc \<times> hs_view) list" where
  "handshake_init acq =
     (\<lparr>data_hist = [0], ready_hist = [(False, 0)]\<rparr>,
      [(P_sleep, \<lparr>v_data = 0, v_ready = 0\<rparr>), (C_wait acq, \<lparr>v_data = 0, v_ready = 0\<rparr>)])"

text \<open>
  The invariant of the test with \<^verbatim>\<open>consumer_correct\<close>: the writes made so far follow the
  producer's control point; the producer knows its write of 42 when it signals; and a
  consumer that knows the write of true to \<open>ready\<close> knows the write of 42 to \<open>data\<close>.
\<close>

definition hs_inv :: "hs_mem \<times> (hs_pc \<times> hs_view) list \<Rightarrow> bool" where
  "hs_inv s =
     (case s of (mem, ths) \<Rightarrow>
        (\<exists>pp pv cp cv. ths = [(pp, pv), (cp, cv)]
           \<and> pp \<in> {P_sleep, P_write, P_signal, P_done}
           \<and> data_hist mem = (if pp \<in> {P_sleep, P_write} then [0] else [0, 42])
           \<and> ready_hist mem = (if pp = P_done then [(False, 0), (True, 1)] else [(False, 0)])
           \<and> (pp = P_signal \<longrightarrow> v_data pv = 1)
           \<and> v_ready cv < length (ready_hist mem)
           \<and> v_data cv < length (data_hist mem)
           \<and> (cp = C_wait True \<and> (v_ready cv = 1 \<longrightarrow> v_data cv = 1)
              \<or> cp = C_use True \<and> v_ready cv = 1 \<and> v_data cv = 1
              \<or> cp = C_done True 42)))"


section \<open>06: the lock-free stack\<close>

text \<open>
  \<^verbatim>\<open>struct Node { int value; Node* next; }\<close>. A pointer to a node is an address or
  \<open>None\<close> (the null pointer). The fields are named \<open>val\<close> and \<open>nxt\<close>.
\<close>

type_synonym addr = nat

datatype node = Node (val: cint) (nxt: "addr option")

text \<open>
  The memory the stack lives in: the free store (the nodes allocated and not yet
  deleted, by address) and the stack's only member, the atomic pointer \<open>head\<close>.
\<close>

record stack_mem =
  store :: "addr \<Rightarrow> node option"
  head :: "addr option"

text \<open>
  A choice of a step: whether a weak compare-and-swap fails spuriously, and the address
  the allocator returns.
\<close>

type_synonym choice = "bool \<times> addr"

text \<open>
  \<^verbatim>\<open>LockFreeStack::push(value)\<close>. Control is before \<^verbatim>\<open>new Node(value)\<close>; before the load
  of \<open>head\<close>, with \<open>new_node\<close>; before the assignment \<^verbatim>\<open>new_node->next = old_head\<close>, with
  \<open>new_node\<close> and \<open>old_head\<close>; before the compare-and-swap, with both; or past the return.
  The allocator returns an address that holds no live node: a schedule entry that
  proposes any other address is no step. Writing through a pointer to a deleted node
  is undefined behaviour, \<open>PU_fault\<close>.
\<close>

datatype push_pc =
  PU_new | PU_load addr | PU_link addr "addr option" | PU_cas addr "addr option"
  | PU_ret | PU_fault

definition push_step :: "cint \<Rightarrow> choice \<Rightarrow> stack_mem \<Rightarrow> push_pc \<Rightarrow> stack_mem \<times> push_pc" where
  "push_step v c m pc =
     (case pc of
        PU_new \<Rightarrow>
          (case store m (snd c) of
             None \<Rightarrow> (m\<lparr>store := (store m)(snd c \<mapsto> Node v None)\<rparr>, PU_load (snd c))
           | Some x \<Rightarrow> (m, PU_new))
      | PU_load new_node \<Rightarrow> (m, PU_link new_node (head m))
      | PU_link new_node old_head \<Rightarrow>
          (case store m new_node of
             None \<Rightarrow> (m, PU_fault)
           | Some x \<Rightarrow>
               (m\<lparr>store := (store m)(new_node \<mapsto> Node (val x) old_head)\<rparr>,
                PU_cas new_node old_head))
      | PU_cas new_node old_head \<Rightarrow>
          (case compare_exchange_weak (fst c) (head m) old_head (Some new_node) of
             (ok, h', old_head') \<Rightarrow>
               if ok then (m\<lparr>head := h'\<rparr>, PU_ret)
               else (m\<lparr>head := h'\<rparr>, PU_link new_node old_head'))
      | PU_ret \<Rightarrow> (m, PU_ret)
      | PU_fault \<Rightarrow> (m, PU_fault))"

text \<open>
  \<^verbatim>\<open>LockFreeStack::pop(value)\<close>, on the memory and the caller's variable \<open>out\<close> that the
  reference \<open>value\<close> is bound to. Control is before the load of \<open>head\<close>; at the loop
  condition with \<open>old_head\<close> (a non-null \<open>old_head\<close> is dereferenced for \<open>next\<close> in the
  same step); before the compare-and-swap, with \<open>old_head\<close> and \<open>next\<close>; before
  \<^verbatim>\<open>value = old_head->value\<close>; before \<^verbatim>\<open>delete old_head\<close>; or past the return, with
  the result. Reading or deleting a node that is already deleted is undefined
  behaviour, \<open>PO_fault\<close>.
\<close>

datatype pop_pc =
  PO_load | PO_test "addr option" | PO_cas addr "addr option" | PO_read addr | PO_del addr
  | PO_ret bool | PO_fault

definition pop_step ::
  "choice \<Rightarrow> stack_mem \<Rightarrow> pop_pc \<times> cint \<Rightarrow> stack_mem \<times> pop_pc \<times> cint" where
  "pop_step c m l =
     (case l of (pc, out) \<Rightarrow>
        (case pc of
           PO_load \<Rightarrow> (m, PO_test (head m), out)
         | PO_test old_head \<Rightarrow>
             (case old_head of
                None \<Rightarrow> (m, PO_ret False, out)
              | Some a \<Rightarrow>
                  (case store m a of
                     None \<Rightarrow> (m, PO_fault, out)
                   | Some x \<Rightarrow> (m, PO_cas a (nxt x), out)))
         | PO_cas a next_node \<Rightarrow>
             (case compare_exchange_weak (fst c) (head m) (Some a) next_node of
                (ok, h', old_head') \<Rightarrow>
                  if ok then (m\<lparr>head := h'\<rparr>, PO_read a, out)
                  else (m\<lparr>head := h'\<rparr>, PO_test old_head', out))
         | PO_read a \<Rightarrow>
             (case store m a of
                None \<Rightarrow> (m, PO_fault, out)
              | Some x \<Rightarrow> (m, PO_del a, val x))
         | PO_del a \<Rightarrow>
             (case store m a of
                None \<Rightarrow> (m, PO_fault, out)
              | Some x \<Rightarrow> (m\<lparr>store := (store m)(a := None)\<rparr>, PO_ret True, out))
         | PO_ret b \<Rightarrow> (m, PO_ret b, out)
         | PO_fault \<Rightarrow> (m, PO_fault, out)))"

text \<open>
  A thread that uses the stack: the calls it still has to make, the call in progress,
  its variable \<open>th_out\<close> (the \<^verbatim>\<open>int value\<close> of \<^verbatim>\<open>worker_pop\<close>, the \<^verbatim>\<open>dummy\<close> of the
  destructor) and the results of the calls that have returned, oldest first. For a
  \<open>pop\<close> the result is the boolean returned and the content of that variable at the return.
\<close>

datatype stack_op = Push cint | Pop

datatype stack_ret = Ret_push | Ret_pop bool cint

datatype call_pc = T_idle | T_push cint push_pc | T_pop pop_pc

record sthread =
  th_todo :: "stack_op list"
  th_pc :: call_pc
  th_out :: cint
  th_rets :: "stack_ret list"

definition in_push :: "cint \<Rightarrow> push_pc \<Rightarrow> choice \<Rightarrow> stack_mem \<Rightarrow> sthread \<Rightarrow> stack_mem \<times> sthread" where
  "in_push v p c m th =
     (case push_step v c m p of
        (m', p') \<Rightarrow>
          if p' = PU_ret then (m', th\<lparr>th_pc := T_idle, th_rets := th_rets th @ [Ret_push]\<rparr>)
          else (m', th\<lparr>th_pc := T_push v p'\<rparr>))"

definition in_pop :: "pop_pc \<Rightarrow> choice \<Rightarrow> stack_mem \<Rightarrow> sthread \<Rightarrow> stack_mem \<times> sthread" where
  "in_pop p c m th =
     (case pop_step c m (p, th_out th) of
        (m', p', out') \<Rightarrow>
          (case p' of
             PO_ret b \<Rightarrow> (m', th\<lparr>th_pc := T_idle, th_out := out', th_rets := th_rets th @ [Ret_pop b out']\<rparr>)
           | _ \<Rightarrow> (m', th\<lparr>th_pc := T_pop p', th_out := out'\<rparr>)))"

text \<open>
  One step of a thread: the next step of the call in progress, or, between calls, the
  first step of the next call. A thread with no call left does nothing.
\<close>

definition stack_thread_step :: "choice \<Rightarrow> stack_mem \<Rightarrow> sthread \<Rightarrow> stack_mem \<times> sthread" where
  "stack_thread_step c m th =
     (case th_pc th of
        T_idle \<Rightarrow>
          (case th_todo th of
             [] \<Rightarrow> (m, th)
           | Push v # ops \<Rightarrow> in_push v PU_new c m (th\<lparr>th_todo := ops\<rparr>)
           | Pop # ops \<Rightarrow> in_pop PO_load c m (th\<lparr>th_todo := ops\<rparr>))
      | T_push v p \<Rightarrow> in_push v p c m th
      | T_pop p \<Rightarrow> in_pop p c m th)"

text \<open>
  The start: an empty stack in an empty free store, and one thread per list of calls,
  its variable holding 0 (the source leaves it uninitialised and never reads it before
  a \<open>pop\<close> has written it).
  \<^verbatim>\<open>worker_push\<close> and \<^verbatim>\<open>worker_pop\<close> are the two lists of calls of the source (with
  100000 for \<open>n\<close>).
\<close>

definition stack_thread :: "stack_op list \<Rightarrow> sthread" where
  "stack_thread ops = \<lparr>th_todo = ops, th_pc = T_idle, th_out = 0, th_rets = []\<rparr>"

definition stack_init :: "stack_op list list \<Rightarrow> stack_mem \<times> sthread list" where
  "stack_init progs = (\<lparr>store = Map.empty, head = None\<rparr>, map stack_thread progs)"



definition finished :: "stack_mem \<times> sthread list \<Rightarrow> bool" where
  "finished s = list_all (\<lambda>th. th_pc th = T_idle \<and> th_todo th = []) (snd s)"

text \<open>
  The nodes reachable from a pointer, in order, each with its address and content:
  \<open>chain h p xs\<close> holds when following \<open>nxt\<close> from \<open>p\<close> in the store \<open>h\<close> visits exactly
  the live nodes \<open>xs\<close> and then reaches the null pointer.
\<close>

fun chain :: "(addr \<Rightarrow> node option) \<Rightarrow> addr option \<Rightarrow> (addr \<times> node) list \<Rightarrow> bool" where
  "chain h p [] = (p = None)"
| "chain h p (x # xs) = (p = Some (fst x) \<and> h (fst x) = Some (snd x) \<and> chain h (nxt (snd x)) xs)"

text \<open>
  The values passed to \<open>push\<close> by a list of calls, and the values returned by the
  successful \<open>pop\<close>s among a list of results.
\<close>

fun pushed :: "stack_op list \<Rightarrow> cint list" where
  "pushed [] = []"
| "pushed (Push v # ops) = v # pushed ops"
| "pushed (Pop # ops) = pushed ops"

fun popped :: "stack_ret list \<Rightarrow> cint list" where
  "popped [] = []"
| "popped (Ret_pop True v # rs) = v # popped rs"
| "popped (r # rs) = popped rs"



section \<open>06: invariants of the stack\<close>

text \<open>
  The node a thread holds privately: the node a \<open>push\<close> has allocated and not yet
  published, or the node a \<open>pop\<close> has unlinked and not yet deleted.
\<close>

fun owns :: "call_pc \<Rightarrow> addr option" where
  "owns (T_push v (PU_load a)) = Some a"
| "owns (T_push v (PU_link a old)) = Some a"
| "owns (T_push v (PU_cas a old)) = Some a"
| "owns (T_pop (PO_read a)) = Some a"
| "owns (T_pop (PO_del a)) = Some a"
| "owns _ = None"

text \<open>
  What a control point needs of the store \<open>h\<close> and of the chain \<open>xs\<close> from \<open>head\<close>: a
  private node is live, holds the value being pushed (or, once read, the value in the
  caller's variable \<open>ov\<close>) and is not in the chain; the node a \<open>pop\<close> has observed as
  head is still in the chain, with the \<open>next\<close> it read. No thread is at a fault.
\<close>

fun pc_ok :: "(addr \<Rightarrow> node option) \<Rightarrow> (addr \<times> node) list \<Rightarrow> cint \<Rightarrow> call_pc \<Rightarrow> bool" where
  "pc_ok h xs ov T_idle = True"
| "pc_ok h xs ov (T_push v PU_new) = True"
| "pc_ok h xs ov (T_push v (PU_load a)) = ((\<exists>nx. h a = Some (Node v nx)) \<and> a \<notin> fst ` set xs)"
| "pc_ok h xs ov (T_push v (PU_link a old)) = ((\<exists>nx. h a = Some (Node v nx)) \<and> a \<notin> fst ` set xs)"
| "pc_ok h xs ov (T_push v (PU_cas a old)) = (h a = Some (Node v old) \<and> a \<notin> fst ` set xs)"
| "pc_ok h xs ov (T_push v PU_ret) = False"
| "pc_ok h xs ov (T_push v PU_fault) = False"
| "pc_ok h xs ov (T_pop PO_load) = True"
| "pc_ok h xs ov (T_pop (PO_test None)) = True"
| "pc_ok h xs ov (T_pop (PO_test (Some a))) = (a \<in> fst ` set xs)"
| "pc_ok h xs ov (T_pop (PO_cas a nx)) = (\<exists>v. (a, Node v nx) \<in> set xs)"
| "pc_ok h xs ov (T_pop (PO_read a)) = (h a \<noteq> None \<and> a \<notin> fst ` set xs)"
| "pc_ok h xs ov (T_pop (PO_del a)) = ((\<exists>nx. h a = Some (Node ov nx)) \<and> a \<notin> fst ` set xs)"
| "pc_ok h xs ov (T_pop (PO_ret b)) = False"
| "pc_ok h xs ov (T_pop PO_fault) = False"

definition thread_ok :: "(addr \<Rightarrow> node option) \<Rightarrow> (addr \<times> node) list \<Rightarrow> sthread \<Rightarrow> bool" where
  "thread_ok h xs th = pc_ok h xs (th_out th) (th_pc th)"

text \<open>A thread that only pushes: no call of \<open>pop\<close> in progress or to come.\<close>

fun in_pop_call :: "call_pc \<Rightarrow> bool" where
  "in_pop_call (T_pop p) = True"
| "in_pop_call _ = False"

definition push_only :: "sthread \<Rightarrow> bool" where
  "push_only th = (Pop \<notin> set (th_todo th) \<and> \<not> in_pop_call (th_pc th))"

text \<open>
  The shape of a state, for the chain \<open>xs\<close> and the one thread \<open>p\<close> that may pop: \<open>xs\<close> is
  the chain from \<open>head\<close>, every thread's control point has what it needs, no two threads
  hold the same private node, and every thread but \<open>p\<close> only pushes.
\<close>

definition shape :: "nat \<Rightarrow> stack_mem \<times> sthread list \<Rightarrow> (addr \<times> node) list \<Rightarrow> bool" where
  "shape p s xs =
     (chain (store (fst s)) (head (fst s)) xs
      \<and> (\<forall>i<length (snd s). thread_ok (store (fst s)) xs (snd s ! i))
      \<and> (\<forall>i<length (snd s). \<forall>j<length (snd s). i \<noteq> j \<longrightarrow>
            owns (th_pc (snd s ! i)) = None \<or> owns (th_pc (snd s ! i)) \<noteq> owns (th_pc (snd s ! j)))
      \<and> (\<forall>i<length (snd s). i \<noteq> p \<longrightarrow> push_only (snd s ! i)))"

text \<open>
  How a step changes the chain: a successful compare-and-swap of \<open>push\<close> puts the new
  node in front, a successful one of \<open>pop\<close> removes the first node.
\<close>

fun lin :: "call_pc \<Rightarrow> call_pc \<Rightarrow> (addr \<times> node) list \<Rightarrow> (addr \<times> node) list" where
  "lin (T_push v (PU_cas a old)) T_idle xs = (a, Node v old) # xs"
| "lin (T_pop (PO_cas a nx)) (T_pop (PO_read b)) xs = tl xs"
| "lin _ _ xs = xs"

text \<open>
  The values a thread accounts for: those it has popped, those it has still to push
  (the push in progress included) and the one of the node it has unlinked.
\<close>

fun pc_acct :: "(addr \<Rightarrow> node option) \<Rightarrow> cint \<Rightarrow> call_pc \<Rightarrow> cint multiset" where
  "pc_acct h ov (T_push v p) = {#v#}"
| "pc_acct h ov (T_pop (PO_read a)) = (case h a of None \<Rightarrow> {#} | Some x \<Rightarrow> {#val x#})"
| "pc_acct h ov (T_pop (PO_del a)) = {#ov#}"
| "pc_acct h ov _ = {#}"

definition th_acct :: "(addr \<Rightarrow> node option) \<Rightarrow> sthread \<Rightarrow> cint multiset" where
  "th_acct h th =
     mset (popped (th_rets th)) + mset (pushed (th_todo th)) + pc_acct h (th_out th) (th_pc th)"

definition total :: "stack_mem \<times> sthread list \<Rightarrow> (addr \<times> node) list \<Rightarrow> cint multiset" where
  "total s xs = sum_list (map (th_acct (store (fst s))) (snd s)) + mset (map (\<lambda>x. val (snd x)) xs)"


text \<open>At most the thread \<open>p\<close> calls \<open>pop\<close>.\<close>

definition single_popper :: "nat \<Rightarrow> stack_op list list \<Rightarrow> bool" where
  "single_popper p progs = (\<forall>i<length progs. i \<noteq> p \<longrightarrow> Pop \<notin> set (progs ! i))"

definition stack_inv :: "nat \<Rightarrow> stack_op list list \<Rightarrow> stack_mem \<times> sthread list \<Rightarrow> bool" where
  "stack_inv p progs s = (\<exists>xs. shape p s xs \<and> total s xs = mset (concat (map pushed progs)))"




text \<open>
  A state from which one thread alone can complete its calls: it has the shape above
  and finitely many live nodes, so that the allocator has an address to give.
\<close>

definition ready_state :: "stack_mem \<times> sthread list \<Rightarrow> bool" where
  "ready_state s = ((\<exists>xs. shape 0 s xs) \<and> finite (dom (store (fst s))))"

section \<open>06: the sequential specification\<close>

text \<open>
  The stack as the specification describes it for one thread: a list with the top
  first; \<open>push\<close> puts a value in front, \<open>pop\<close> takes the first value, or reports an empty
  stack and leaves the caller's variable as it is. \<open>lifo_spec ops st ov\<close> gives the
  results of the calls \<open>ops\<close> from the stack \<open>st\<close> and the caller's variable \<open>ov\<close>.
\<close>

fun lifo_spec :: "stack_op list \<Rightarrow> cint list \<Rightarrow> cint \<Rightarrow> stack_ret list" where
  "lifo_spec [] st ov = []"
| "lifo_spec (Push v # ops) st ov = Ret_push # lifo_spec ops (v # st) ov"
| "lifo_spec (Pop # ops) [] ov = Ret_pop False ov # lifo_spec ops [] ov"
| "lifo_spec (Pop # ops) (x # st) ov = Ret_pop True x # lifo_spec ops st x"

text \<open>
  The results still to come from a control point, by the specification: a call in
  progress counts as not yet made until its compare-and-swap has succeeded.
\<close>

fun pending :: "(addr \<Rightarrow> node option) \<Rightarrow> cint list \<Rightarrow> stack_op list \<Rightarrow> cint \<Rightarrow> call_pc \<Rightarrow> stack_ret list" where
  "pending h st ops ov T_idle = lifo_spec ops st ov"
| "pending h st ops ov (T_push v pp) = lifo_spec (Push v # ops) st ov"
| "pending h st ops ov (T_pop (PO_read a)) =
     (case h a of None \<Rightarrow> [] | Some x \<Rightarrow> Ret_pop True (val x) # lifo_spec ops st (val x))"
| "pending h st ops ov (T_pop (PO_del a)) = Ret_pop True ov # lifo_spec ops st ov"
| "pending h st ops ov (T_pop pp) = lifo_spec (Pop # ops) st ov"

definition th_pending :: "(addr \<Rightarrow> node option) \<Rightarrow> (addr \<times> node) list \<Rightarrow> sthread \<Rightarrow> stack_ret list" where
  "th_pending h xs th =
     th_rets th @ pending h (map (\<lambda>x. val (snd x)) xs) (th_todo th) (th_out th) (th_pc th)"

definition lifo_inv :: "stack_op list \<Rightarrow> stack_mem \<times> sthread list \<Rightarrow> bool" where
  "lifo_inv ops s =
     (\<exists>xs th. snd s = [th] \<and> shape 0 s xs
        \<and> th_pending (store (fst s)) xs th = lifo_spec ops [] 0
        \<and> (th_pc th = T_pop (PO_test None) \<longrightarrow> xs = []))"


section \<open>Observers of the retry loops\<close>

text \<open>
  \<open>push\<close> seen from outside: what it last saw of \<open>head\<close> (at the load or at a
  compare-and-swap), and what it last stored in \<open>new_node->next\<close> (the constructor
  stores the null pointer).
\<close>

definition push_watch ::
  "choice \<Rightarrow> stack_mem \<Rightarrow> push_pc \<Rightarrow> addr option option \<times> addr option option
     \<Rightarrow> addr option option \<times> addr option option" where
  "push_watch c m pc w =
     (case pc of
        PU_new \<Rightarrow> (fst w, case store m (snd c) of None \<Rightarrow> Some None | Some x \<Rightarrow> snd w)
      | PU_load a \<Rightarrow> (Some (head m), snd w)
      | PU_link a old \<Rightarrow> (fst w, case store m a of None \<Rightarrow> snd w | Some x \<Rightarrow> Some old)
      | PU_cas a old \<Rightarrow> (Some (head m), snd w)
      | _ \<Rightarrow> w)"

text \<open>
  \<open>pop\<close> seen from outside: what it last saw of \<open>head\<close>, and the node it last read
  \<open>next\<close> from, with the pointer read.
\<close>

definition pop_seen ::
  "choice \<Rightarrow> stack_mem \<Rightarrow> pop_pc \<times> cint \<Rightarrow> addr option option \<times> (addr \<times> addr option) option
     \<Rightarrow> addr option option \<times> (addr \<times> addr option) option" where
  "pop_seen c m l w =
     (case fst l of
        PO_load \<Rightarrow> (Some (head m), snd w)
      | PO_test old \<Rightarrow>
          (fst w, case old of
                    None \<Rightarrow> snd w
                  | Some a \<Rightarrow> (case store m a of None \<Rightarrow> snd w | Some x \<Rightarrow> Some (a, nxt x)))
      | PO_cas a nx \<Rightarrow> (Some (head m), snd w)
      | _ \<Rightarrow> w)"

text \<open>
  What a \<open>pop\<close> removes, seen from outside: the node its successful compare-and-swap
  unlinked (\<open>head\<close> at that step), and the node and payload of its read of
  \<open>old_head->value\<close>.
\<close>

definition pop_watch ::
  "choice \<Rightarrow> stack_mem \<Rightarrow> pop_pc \<times> cint \<Rightarrow> addr option \<times> (addr \<times> cint) option
     \<Rightarrow> addr option \<times> (addr \<times> cint) option" where
  "pop_watch c m l w =
     (case fst l of
        PO_cas a nx \<Rightarrow>
          if fst (compare_exchange_weak (fst c) (head m) (Some a) nx) then (Some a, snd w) else w
      | PO_read a \<Rightarrow> (case store m a of None \<Rightarrow> w | Some x \<Rightarrow> (fst w, Some (a, val x)))
      | _ \<Rightarrow> w)"

text \<open>
  Two memories for examples: nodes at the addresses 1, 2 and 3 (and 5), with \<open>head\<close>
  as given.
\<close>

definition demo_mem :: "addr option \<Rightarrow> stack_mem" where
  "demo_mem h =
     \<lparr>store = [1 \<mapsto> Node 9 (Some 2), 2 \<mapsto> Node 7 None, 3 \<mapsto> Node 8 (Some 1)], head = h\<rparr>"

definition demo_mem5 :: "addr option \<Rightarrow> addr option \<Rightarrow> stack_mem" where
  "demo_mem5 h nx =
     \<lparr>store = [1 \<mapsto> Node 9 (Some 2), 2 \<mapsto> Node 7 None, 3 \<mapsto> Node 8 (Some 1), 5 \<mapsto> Node 4 nx],
      head = h\<rparr>"

text \<open>
  A retry loop is fresh when the operand \<open>old\<close> of its next attempt is what the thread
  last saw of the shared location; for \<open>push\<close>, the new node's \<open>next\<close> as last stored is
  that value too; for \<open>pop\<close>, the proposal \<open>next\<close> was read from the node last seen as
  \<open>head\<close>.
\<close>

definition bi_fresh :: "bi_pc \<times> cint option \<Rightarrow> bool" where
  "bi_fresh s = (case fst s of BI_loop old \<Rightarrow> snd s = Some old | _ \<Rightarrow> True)"

definition lf_fresh :: "lf_pc \<times> cint option \<Rightarrow> bool" where
  "lf_fresh s = (case fst s of LF_loop old \<Rightarrow> snd s = Some old | _ \<Rightarrow> True)"

definition push_fresh :: "push_pc \<times> addr option option \<times> addr option option \<Rightarrow> bool" where
  "push_fresh s =
     (case fst s of
        PU_link a old \<Rightarrow> fst (snd s) = Some old
      | PU_cas a old \<Rightarrow> fst (snd s) = Some old \<and> snd (snd s) = Some old
      | _ \<Rightarrow> True)"

definition pop_fresh :: "(pop_pc \<times> cint) \<times> addr option option \<times> (addr \<times> addr option) option \<Rightarrow> bool" where
  "pop_fresh s =
     (case fst (fst s) of
        PO_test old \<Rightarrow> fst (snd s) = Some old
      | PO_cas a nx \<Rightarrow> fst (snd s) = Some (Some a) \<and> snd (snd s) = Some (a, nx)
      | _ \<Rightarrow> True)"

text \<open>
  The caller's variable of a \<open>pop\<close> started with the content \<open>ov0\<close>: unchanged as long as
  the call has read no payload, and afterwards the payload read from the node the call
  unlinked; a call that returned true has read one, a call that returned false none.
\<close>

definition pop_out_inv :: "cint \<Rightarrow> (pop_pc \<times> cint) \<times> addr option \<times> (addr \<times> cint) option \<Rightarrow> bool" where
  "pop_out_inv ov0 s =
     (case s of ((pc, ov), (u, tk)) \<Rightarrow>
        (case tk of None \<Rightarrow> ov = ov0 | Some (a, v) \<Rightarrow> ov = v \<and> u = Some a)
        \<and> (case pc of
              PO_read a \<Rightarrow> u = Some a \<and> tk = None
            | PO_del a \<Rightarrow> u = Some a \<and> tk \<noteq> None
            | PO_ret b \<Rightarrow> (if b then tk \<noteq> None else tk = None)
            | PO_fault \<Rightarrow> True
            | _ \<Rightarrow> u = None \<and> tk = None))"


text \<open>
  A thread run together with an observer \<open>mon\<close>, which sees each step (the choice, the
  shared state found and the thread's variables before it) and keeps a value \<open>'m\<close> of
  its own. The observer does not influence the thread.
\<close>

definition mon_run ::
  "('c \<Rightarrow> 'g \<Rightarrow> 'l \<Rightarrow> 'g \<times> 'l) \<Rightarrow> ('c \<Rightarrow> 'g \<Rightarrow> 'l \<Rightarrow> 'm \<Rightarrow> 'm)
     \<Rightarrow> ('c \<times> 'g) list \<Rightarrow> 'l \<times> 'm \<Rightarrow> 'l \<times> 'm" where
  "mon_run stp mon envs s =
     foldl (\<lambda>s e. (snd (stp (fst e) (snd e) (fst s)), mon (fst e) (snd e) (fst s) (snd s))) s envs"

text \<open>
  What the delay must be, given what the observer counted: at the compare-and-swap
  after \<open>k\<close> failures the local \<open>backoff\<close> is \<open>min (2 ^ k) 64\<close>, and the pauses executed
  since the last failure are \<open>min (2 ^ (k - 1)) 64\<close>; in the pause loop of the \<open>k\<close>-th
  failure \<open>backoff\<close> is \<open>min (2 ^ (k - 1)) 64\<close> and \<open>j\<close>, which has not passed it, is the
  number of pauses executed.
\<close>

definition wb_observe_inv :: "(nat \<times> wb_pc) \<times> nat \<times> nat \<Rightarrow> bool" where
  "wb_observe_inv s =
     (case s of ((i, pc), k, p) \<Rightarrow>
       (case pc of
          WB_load \<Rightarrow> True
        | WB_cas old b \<Rightarrow> b = min (2 ^ k) 64 \<and> (0 < k \<longrightarrow> int p = min (2 ^ (k - 1)) 64)
        | WB_pause old b j \<Rightarrow> 0 < k \<and> b = min (2 ^ (k - 1)) 64 \<and> 0 \<le> j \<and> j \<le> b \<and> int p = j))"


section \<open>Generic facts about schedules\<close>

lemma run_Nil [simp]: "run stp [] s = s"
  by (simp add: run_def)

lemma run_Cons [simp]: "run stp (e # sch) s = run stp sch (sched_step stp s e)"
  by (simp add: run_def)

lemma run_append: "run stp (sch @ sch') s = run stp sch' (run stp sch s)"
  by (simp add: run_def)

lemma run_invariant:
  assumes "I s" and "\<And>s e. I s \<Longrightarrow> I (sched_step stp s e)"
  shows "I (run stp sch s)"
  using assms(1)
proof (induction sch arbitrary: s)
  case Nil
  then show ?case by simp
next
  case (Cons e sch)
  then show ?case using assms(2) by simp
qed

lemma length_sched_step [simp]: "length (snd (sched_step stp s e)) = length (snd s)"
  by (cases s; cases e) (simp add: sched_step_def split: prod.splits)

lemma length_run [simp]: "length (snd (run stp sch s)) = length (snd s)"
  by (induction sch arbitrary: s) simp_all

lemma sched_step_eq:
  "sched_step stp s e =
     (if fst e < length (snd s)
      then (fst (stp (snd e) (fst s) (snd s ! fst e)),
            (snd s)[fst e := snd (stp (snd e) (fst s) (snd s ! fst e))])
      else s)"
  by (cases s; cases e) (simp add: sched_step_def split: prod.splits)

lemma run_shared_invariant:
  assumes "P g" and "\<And>c g l. P g \<Longrightarrow> P (fst (stp c g l))"
  shows "P (fst (run stp sch (g, ls)))"
  by (rule run_invariant [where I = "\<lambda>s. P (fst s)"]) (simp_all add: assms sched_step_eq)


lemma mon_run_Nil [simp]: "mon_run stp mon [] s = s"
  by (simp add: mon_run_def)

lemma mon_run_Cons [simp]:
  "mon_run stp mon (e # envs) s =
     mon_run stp mon envs (snd (stp (fst e) (snd e) (fst s)), mon (fst e) (snd e) (fst s) (snd s))"
  by (simp add: mon_run_def)

lemma mon_run_invariant:
  assumes "I s" and "\<And>c g l m. I (l, m) \<Longrightarrow> I (snd (stp c g l), mon c g l m)"
  shows "I (mon_run stp mon envs s)"
  using assms(1)
proof (induction envs arbitrary: s)
  case Nil
  then show ?case by simp
next
  case (Cons e envs)
  from Cons.prems have "I (fst s, snd s)" by simp
  then have "I (snd (stp (fst e) (snd e) (fst s)), mon (fst e) (snd e) (fst s) (snd s))"
    by (rule assms(2))
  then show ?case by (simp add: Cons.IH)
qed

lemma fst_mon_run: "fst (mon_run stp mon envs (l, m)) = thread_run stp envs l"
  by (induction envs arbitrary: l m) (simp_all add: thread_run_def)


text \<open>
  Every run of a system is, for each of its threads, a run of that thread alone against
  some sequence of shared states: what is proved of \<open>thread_run\<close> and \<open>mon_run\<close> for all
  such sequences holds of the thread in every interleaving.
\<close>

lemma run_thread_projection:
  assumes "t < length ls"
  shows "\<exists>envs. snd (run stp sch (g, ls)) ! t = thread_run stp envs (ls ! t)"
proof (induction sch rule: rev_induct)
  case Nil
  have "snd (run stp [] (g, ls)) ! t = thread_run stp [] (ls ! t)" by (simp add: thread_run_def)
  then show ?case by blast
next
  case (snoc e sch)
  then obtain envs where envs: "snd (run stp sch (g, ls)) ! t = thread_run stp envs (ls ! t)"
    by blast
  let ?s = "run stp sch (g, ls)"
  have len: "length (snd ?s) = length ls" by simp
  show ?case
  proof (cases "fst e = t")
    case True
    with assms len have "snd (run stp (sch @ [e]) (g, ls)) ! t
        = snd (stp (snd e) (fst ?s) (snd ?s ! t))"
      by (simp add: run_append sched_step_eq)
    also have "\<dots> = thread_run stp (envs @ [(snd e, fst ?s)]) (ls ! t)"
      by (simp add: envs thread_run_def)
    finally show ?thesis by blast
  next
    case False
    then have "snd (run stp (sch @ [e]) (g, ls)) ! t = snd ?s ! t"
      by (simp add: run_append sched_step_eq)
    with envs show ?thesis by metis
  qed
qed

lemma sint_of_nat32: "N < 2 ^ 31 \<Longrightarrow> sint (word_of_nat N :: cint) = int N"
  using sint_sbintrunc' [where 'a = 32, of "int N"]
  by (simp add: signed_take_bit_int_eq_self)

lemma sum_list_update_nat:
  "t < length xs \<Longrightarrow> sum_list (xs[t := v]) + xs ! t = sum_list xs + (v::nat)"
proof (induction xs arbitrary: t)
  case Nil
  then show ?case by simp
next
  case (Cons x xs)
  then show ?case by (cases t) auto
qed

lemma counting_invariant:
  fixes cnt :: "'g \<Rightarrow> cint" and idx :: "'l \<Rightarrow> nat"
  assumes step: "\<And>c g l.
      (cnt (fst (stp c g l)) = cnt g \<and> idx (snd (stp c g l)) = idx l)
      \<or> (cnt (fst (stp c g l)) = cnt g + 1 \<and> idx (snd (stp c g l)) = Suc (idx l))"
    and bound: "\<And>c g l. idx l \<le> n \<Longrightarrow> idx (snd (stp c g l)) \<le> n"
    and init: "cnt g0 = word_of_nat (sum_list (map idx ls0))" "list_all (\<lambda>l. idx l \<le> n) ls0"
  shows "cnt (fst (run stp sch (g0, ls0))) = word_of_nat (sum_list (map idx (snd (run stp sch (g0, ls0)))))
       \<and> list_all (\<lambda>l. idx l \<le> n) (snd (run stp sch (g0, ls0)))"
proof (rule run_invariant
    [where I = "\<lambda>s. cnt (fst s) = word_of_nat (sum_list (map idx (snd s))) \<and> list_all (\<lambda>l. idx l \<le> n) (snd s)"])
  show "cnt (fst (g0, ls0)) = word_of_nat (sum_list (map idx (snd (g0, ls0))))
      \<and> list_all (\<lambda>l. idx l \<le> n) (snd (g0, ls0))"
    using init by simp
next
  fix s :: "'g \<times> 'l list" and e :: "nat \<times> 'a"
  assume inv: "cnt (fst s) = word_of_nat (sum_list (map idx (snd s))) \<and> list_all (\<lambda>l. idx l \<le> n) (snd s)"
  show "cnt (fst (sched_step stp s e)) = word_of_nat (sum_list (map idx (snd (sched_step stp s e))))
      \<and> list_all (\<lambda>l. idx l \<le> n) (snd (sched_step stp s e))"
  proof (cases "fst e < length (snd s)")
    case False
    with inv show ?thesis by (simp add: sched_step_eq)
  next
    case True
    let ?t = "fst e" and ?r = "stp (snd e) (fst s) (snd s ! fst e)"
    have eq: "sched_step stp s e = (fst ?r, (snd s)[?t := snd ?r])"
      using True by (simp add: sched_step_eq)
    have upd: "sum_list (map idx ((snd s)[?t := snd ?r])) + idx (snd s ! ?t)
         = sum_list (map idx (snd s)) + idx (snd ?r)"
      using True sum_list_update_nat [of ?t "map idx (snd s)" "idx (snd ?r)"]
      by (simp add: map_update)
    have le: "idx (snd s ! ?t) \<le> n" using inv True by (simp add: list_all_length)
    then have le': "idx (snd ?r) \<le> n" by (rule bound)
    have all: "list_all (\<lambda>l. idx l \<le> n) ((snd s)[?t := snd ?r])"
      using inv le' by (auto simp: list_all_iff dest!: set_update_subset_insert [THEN subsetD])
    from step [of "snd e" "fst s" "snd s ! ?t"]
    have "cnt (fst ?r) = word_of_nat (sum_list (map idx ((snd s)[?t := snd ?r])))"
    proof
      assume a: "cnt (fst ?r) = cnt (fst s) \<and> idx (snd ?r) = idx (snd s ! ?t)"
      with upd have "sum_list (map idx ((snd s)[?t := snd ?r])) = sum_list (map idx (snd s))" by simp
      with a inv show ?thesis by simp
    next
      assume a: "cnt (fst ?r) = cnt (fst s) + 1 \<and> idx (snd ?r) = Suc (idx (snd s ! ?t))"
      with upd have "sum_list (map idx ((snd s)[?t := snd ?r])) = sum_list (map idx (snd s)) + 1" by simp
      with a inv show ?thesis by simp
    qed
    with all eq show ?thesis by simp
  qed
qed

lemma counting_joined:
  assumes "list_all (\<lambda>l. idx l \<le> n) ls" and "list_all (\<lambda>l. \<not> idx l < n) ls"
  shows "sum_list (map idx ls) = length ls * (n::nat)"
  using assms by (induction ls) auto


lemma solo_Nil [simp]: "solo stp [] s = s"
  by (simp add: solo_def)

lemma solo_Cons [simp]: "solo stp (c # cs) s = solo stp cs (stp c (fst s) (snd s))"
  by (simp add: solo_def)

lemma solo_append: "solo stp (cs @ cs') s = solo stp cs' (solo stp cs s)"
  by (simp add: solo_def)

lemma run_solo:
  "t < length ls \<Longrightarrow>
     run stp (map (Pair t) cs) (g, ls)
       = (fst (solo stp cs (g, ls ! t)), ls[t := snd (solo stp cs (g, ls ! t))])"
proof (induction cs arbitrary: g ls)
  case Nil
  then show ?case by simp
next
  case (Cons c cs)
  obtain g' l' where st: "stp c g (ls ! t) = (g', l')" by (cases "stp c g (ls ! t)")
  have "run stp (map (Pair t) (c # cs)) (g, ls) = run stp (map (Pair t) cs) (g', ls[t := l'])"
    using Cons.prems st by (simp add: sched_step_eq)
  also have "\<dots> = (fst (solo stp cs (g', ls[t := l'] ! t)),
                    ls[t := l', t := snd (solo stp cs (g', ls[t := l'] ! t))])"
    using Cons.prems by (intro Cons.IH) simp
  finally show ?case using Cons.prems st by simp
qed

lemma can_join:
  assumes "I s"
    and step: "\<And>s e. I s \<Longrightarrow> I (sched_step stp s e)"
    and fin: "\<And>s t. I s \<Longrightarrow> t < length (snd s) \<Longrightarrow> \<exists>cs. fin (snd (solo stp cs (fst s, snd s ! t)))"
  shows "\<exists>sch. list_all fin (snd (run stp sch s))"
proof -
  have "\<exists>sch. \<forall>t<k. fin (snd (run stp sch s) ! t)" if "k \<le> length (snd s)" for k
    using that
  proof (induction k)
    case 0
    then show ?case by simp
  next
    case (Suc k)
    then obtain sch where sch: "\<forall>t<k. fin (snd (run stp sch s) ! t)" by auto
    let ?s = "run stp sch s"
    have I: "I ?s" using assms(1) step by (rule run_invariant)
    have k: "k < length (snd ?s)" using Suc.prems by simp
    from fin [OF I k] obtain cs where cs: "fin (snd (solo stp cs (fst ?s, snd ?s ! k)))" by blast
    have r: "run stp (sch @ map (Pair k) cs) s
        = (fst (solo stp cs (fst ?s, snd ?s ! k)), (snd ?s)[k := snd (solo stp cs (fst ?s, snd ?s ! k))])"
      using run_solo [OF k, of stp cs "fst ?s"] by (simp add: run_append)
    have "\<forall>t<Suc k. fin (snd (run stp (sch @ map (Pair k) cs) s) ! t)"
    proof (intro allI impI)
      fix t assume "t < Suc k"
      then consider "t < k" | "t = k" by linarith
      then show "fin (snd (run stp (sch @ map (Pair k) cs) s) ! t)"
      proof cases
        case 1
        with sch show ?thesis unfolding r by simp
      next
        case 2
        with cs k show ?thesis unfolding r by simp
      qed
    qed
    then show ?case by blast
  qed
  from this [of "length (snd s)"] obtain sch where "\<forall>t<length (snd s). fin (snd (run stp sch s) ! t)"
    by auto
  then have "list_all fin (snd (run stp sch s))"
    by (simp add: list_all_length)
  then show ?thesis ..
qed

section \<open>02: every increment is counted\<close>

lemma atomic_step_sum:
  assumes "word_of_nat (sum_list (snd s)) = fst s"
  shows "word_of_nat (sum_list (snd (sched_step (worker_atomic_step n) s e)))
           = fst (sched_step (worker_atomic_step n) s e)"
proof (cases s; cases e)
  fix g ls t c
  assume s: "s = (g, ls)" and e: "e = (t, c)"
  show ?thesis
  proof (cases "t < length ls \<and> ls ! t < n")
    case True
    then have "sum_list (ls[t := ls ! t + 1]) + ls ! t = sum_list ls + (ls ! t + 1)"
      using sum_list_update_nat [of t ls "ls ! t + 1"] by simp
    then have "sum_list (ls[t := ls ! t + 1]) = sum_list ls + 1" by simp
    with True assms s e show ?thesis
      by (simp add: sched_step_def worker_atomic_step_def fetch_add_def)
  next
    case False
    with assms s e show ?thesis
      by (auto simp: sched_step_def worker_atomic_step_def fetch_add_def)
  qed
qed

lemma atomic_step_le:
  assumes "list_all (\<lambda>i. i \<le> n) (snd s)"
  shows "list_all (\<lambda>i. i \<le> n) (snd (sched_step (worker_atomic_step n) s e))"
proof (cases s; cases e)
  fix g ls t c
  assume s: "s = (g, ls)" and e: "e = (t, c)"
  with assms show ?thesis
    by (auto simp: sched_step_def worker_atomic_step_def list_all_iff
        dest!: set_update_subset_insert [THEN subsetD])
qed

lemma atomic_run_inv:
  "word_of_nat (sum_list (snd (run (worker_atomic_step n) sch (atomic_init N))))
      = fst (run (worker_atomic_step n) sch (atomic_init N))
   \<and> list_all (\<lambda>i. i \<le> n) (snd (run (worker_atomic_step n) sch (atomic_init N)))"
proof (rule run_invariant)
  show "word_of_nat (sum_list (snd (atomic_init N))) = fst (atomic_init N)
      \<and> list_all (\<lambda>i. i \<le> n) (snd (atomic_init N))"
  proof -
    have "sum_list (replicate N (0::nat)) = 0" by simp
    then show ?thesis by (simp only: atomic_init_def fst_conv snd_conv list_all_iff) simp
  qed
next
  fix s :: "cint \<times> nat list" and e :: "nat \<times> unit"
  assume "word_of_nat (sum_list (snd s)) = fst s \<and> list_all (\<lambda>i. i \<le> n) (snd s)"
  then show "word_of_nat (sum_list (snd (sched_step (worker_atomic_step n) s e)))
        = fst (sched_step (worker_atomic_step n) s e)
      \<and> list_all (\<lambda>i. i \<le> n) (snd (sched_step (worker_atomic_step n) s e))"
    using atomic_step_sum [of s n e] atomic_step_le [of n s e] by simp
qed

lemma sum_list_all_eq:
  "list_all (\<lambda>i. i \<le> n) xs \<Longrightarrow> list_all (\<lambda>i. \<not> i < n) xs \<Longrightarrow> sum_list xs = length xs * (n::nat)"
  by (induction xs) auto

lemma atomic_progress:
  assumes "t < N"
  shows "snd (run (worker_atomic_step M) sch (atomic_init N)) ! t
       = min M (length (filter (\<lambda>e. fst e = t) sch))"
proof (induction sch rule: rev_induct)
  case Nil
  with assms show ?case by (simp add: atomic_init_def)
next
  case (snoc e sch)
  let ?s = "run (worker_atomic_step M) sch (atomic_init N)"
  have len: "length (snd ?s) = N" by (simp add: atomic_init_def)
  show ?case
  proof (cases "fst e = t")
    case True
    with assms len snoc show ?thesis
      by (simp add: run_append sched_step_eq worker_atomic_step_def min_def)
  next
    case False
    with assms len snoc show ?thesis
      by (simp add: run_append sched_step_eq)
  qed
qed

lemma atomic_joined_iff:
  "atomic_joined M (run (worker_atomic_step M) sch (atomic_init N))
     \<longleftrightarrow> (\<forall>t<N. M \<le> length (filter (\<lambda>e. fst e = t) sch))"
proof -
  let ?s = "run (worker_atomic_step M) sch (atomic_init N)"
  have len: "length (snd ?s) = N" by (simp add: atomic_init_def)
  have "atomic_joined M ?s \<longleftrightarrow> (\<forall>t<N. \<not> snd ?s ! t < M)"
    using len by (simp add: atomic_joined_def list_all_length)
  also have "\<dots> \<longleftrightarrow> (\<forall>t<N. M \<le> length (filter (\<lambda>e. fst e = t) sch))"
    by (auto simp: atomic_progress)
  finally show ?thesis .
qed


text \<open>
  C9. \<^verbatim>\<open>counter.fetch_add(1)\<close> as \<^verbatim>\<open>worker_atomic\<close> calls it adds exactly 1 to the
  counter, whatever the counter holds, and changes nothing but the counter and the
  caller's loop index (the step has no failure outcome). Consequently, for \<open>N\<close> threads
  of \<open>M\<close> iterations each started on a counter of 0, under every schedule: the threads
  have all finished exactly when each has been given \<open>M\<close> steps, and then the counter
  holds \<open>N * M\<close>: as a 32-bit value in general, and as the number \<open>N * M\<close> itself
  whenever that fits an int.
\<close>

theorem atomic_counter_total:
  "(i < M \<longrightarrow> worker_atomic_step M c g i = (g + 1, i + 1))
   \<and> (atomic_joined M (run (worker_atomic_step M) sch (atomic_init N))
        \<longleftrightarrow> (\<forall>t<N. M \<le> length (filter (\<lambda>e. fst e = t) sch)))
   \<and> (atomic_joined M (run (worker_atomic_step M) sch (atomic_init N)) \<longrightarrow>
        fst (run (worker_atomic_step M) sch (atomic_init N)) = word_of_nat (N * M)
        \<and> (N * M < 2 ^ 31 \<longrightarrow>
             sint (fst (run (worker_atomic_step M) sch (atomic_init N))) = int (N * M)))"
proof -
  let ?s = "run (worker_atomic_step M) sch (atomic_init N)"
  have step: "i < M \<longrightarrow> worker_atomic_step M c g i = (g + 1, i + 1)"
    by (simp add: worker_atomic_step_def fetch_add_def)
  have fin: "fst ?s = word_of_nat (N * M)
      \<and> (N * M < 2 ^ 31 \<longrightarrow> sint (fst ?s) = int (N * M))" if j: "atomic_joined M ?s"
  proof -
    have len: "length (snd ?s) = N" by (simp add: atomic_init_def)
    from atomic_run_inv [of M sch N] j
    have "sum_list (snd ?s) = length (snd ?s) * M"
      by (intro sum_list_all_eq) (simp_all add: atomic_joined_def)
    with len have "sum_list (snd ?s) = N * M" by simp
    with atomic_run_inv [of M sch N] have w: "fst ?s = word_of_nat (N * M)" by simp
    have "sint (word_of_nat (N * M) :: cint) = int (N * M)" if "N * M < 2 ^ 31"
      using that by (rule sint_of_nat32)
    with w show ?thesis by simp
  qed
  from step fin atomic_joined_iff [of M sch N] show ?thesis by blast
qed

theorem atomic_counter_total_witness:
  "atomic_joined 2 (run (worker_atomic_step 2) [(0, ()), (1, ()), (1, ()), (0, ())] (atomic_init 2))
   \<and> fst (run (worker_atomic_step 2) [(0, ()), (1, ()), (1, ()), (0, ())] (atomic_init 2)) = 4
   \<and> sint (fst (run (worker_atomic_step 2) [(0, ()), (1, ()), (1, ()), (0, ())] (atomic_init 2))) = 4
   \<and> worker_atomic_step 2 () 7 1 = (8, 2)"
proof -
  have j: "atomic_joined 2 (run (worker_atomic_step 2) [(0, ()), (1, ()), (1, ()), (0, ())] (atomic_init 2))"
    by (simp add: atomic_joined_def atomic_init_def sched_step_def worker_atomic_step_def
        fetch_add_def numeral_2_eq_2)
  show ?thesis
    using j atomic_counter_total [of 1 2 "()" 7 "[(0, ()), (1, ()), (1, ()), (0, ())]" 2]
    by simp
qed

section \<open>04: the ceiling of the bounded increment\<close>

lemma sint_succ_below:
  fixes old :: cint
  assumes "sint old < 100"
  shows "sint (old + 1) = sint old + 1"
proof -
  have lo: "- (2 ^ 31) \<le> sint old" using sint_ge [of old] by simp
  have "sint (old + 1) = signed_take_bit 31 (sint old + 1)"
    by (simp add: sint_word_ariths)
  also have "\<dots> = sint old + 1"
    using lo assms by (intro signed_take_bit_int_eq_self) simp_all
  finally show ?thesis .
qed

lemma bounded_step_le:
  "sint v \<le> 100 \<Longrightarrow> sint (fst (bounded_increment_step spur v pc)) \<le> 100"
  by (cases pc) (auto simp: bounded_increment_step_def compare_exchange_weak_def sint_succ_below)

lemma bounded_step_at_ceiling:
  "100 \<le> sint v \<Longrightarrow> fst (bounded_increment_step spur v pc) = v"
  by (cases pc) (auto simp: bounded_increment_step_def compare_exchange_weak_def)

lemma worker_cas_fst:
  "fst (worker_cas_step n spur v l) = (if fst l < n then fst (bounded_increment_step spur v (snd l)) else v)"
  by (cases l) (simp add: worker_cas_step_def split: prod.splits)

lemma worker_cas_run_le:
  assumes "sint c0 \<le> 100"
  shows "sint (fst (run (worker_cas_step n) sch (c0, ls))) \<le> 100"
  by (rule run_shared_invariant [where P = "\<lambda>g. sint g \<le> 100"])
    (simp_all add: assms worker_cas_fst bounded_step_le)

lemma worker_cas_run_at_ceiling:
  assumes "100 \<le> sint c0"
  shows "fst (run (worker_cas_step n) sch (c0, ls)) = c0"
  by (rule run_shared_invariant [where P = "\<lambda>g. g = c0"])
    (simp_all add: assms worker_cas_fst bounded_step_at_ceiling)

text \<open>
  C3. The bounded increment with ceiling 100, under every schedule of any number of
  threads running \<^verbatim>\<open>worker_cas\<close>, from any state of the threads: a counter that starts
  at most 100 never exceeds 100; a counter at or above 100 is never changed again; and
  a call that loads a value at or above 100 returns at its next step, without
  attempting the exchange and without changing the counter (the step has no failure
  outcome).
\<close>

theorem bounded_increment_ceiling:
  "(sint c0 \<le> 100 \<longrightarrow> sint (fst (run (worker_cas_step n) sch (c0, ls))) \<le> 100)
   \<and> (100 \<le> sint c0 \<longrightarrow> fst (run (worker_cas_step n) sch (c0, ls)) = c0)
   \<and> (100 \<le> sint v \<longrightarrow>
         bounded_increment_step spur v BI_load = (v, BI_loop v)
         \<and> bounded_increment_step spur' v' (BI_loop v) = (v', BI_ret))"
  using worker_cas_run_le [of c0 n sch ls] worker_cas_run_at_ceiling [of c0 n sch ls]
  by (simp add: bounded_increment_step_def)

theorem bounded_increment_ceiling_witness:
  "sint (99 :: cint) \<le> 100
   \<and> run (worker_cas_step 2) [(0, False), (1, False), (0, False), (1, False), (1, False)]
        (99, [(0, BI_load), (0, BI_load)]) = (100, [(1, BI_load), (1, BI_load)])
   \<and> 100 \<le> sint (100 :: cint)
   \<and> fst (run (worker_cas_step 2) [(0, False), (1, False), (0, False), (1, False)]
        (100, [(0, BI_load), (0, BI_load)])) = 100
   \<and> bounded_increment_step False 100 BI_load = (100, BI_loop 100)
   \<and> bounded_increment_step False 100 (BI_loop 100) = (100, BI_ret)"
  using bounded_increment_ceiling [of 99 2 "[(0, False), (1, False), (0, False), (1, False), (1, False)]"
      "[(0, BI_load), (0, BI_load)]" 100 False False 100]
    bounded_increment_ceiling [of 100 2 "[(0, False), (1, False), (0, False), (1, False)]"
      "[(0, BI_load), (0, BI_load)]" 100 False False 100]
  by (simp add: sched_step_def worker_cas_step_def bounded_increment_step_def compare_exchange_weak_def)

section \<open>09: the backoff delay\<close>

lemma min_double:
  "0 < k \<Longrightarrow> min (min (2 ^ (k - 1)) 64 * 2) (64::int) = min (2 ^ k) 64"
  by (cases k) (auto simp: min_def)

lemma wb_observe_step:
  assumes "wb_observe_inv (l, kp)"
  shows "wb_observe_inv (snd (worker_with_backoff_step n spur g l), wb_observe n spur g l kp)"
proof (cases l)
  case (Pair i pc)
  obtain k p where kp: "kp = (k, p)" by (cases kp)
  show ?thesis
  proof (cases "i < n")
    case False
    with assms Pair kp show ?thesis
      by (cases pc) (simp_all add: wb_observe_inv_def worker_with_backoff_step_def wb_observe_def)
  next
    case True
    show ?thesis
    proof (cases pc)
      case WB_load
      with True Pair kp show ?thesis
        by (simp add: wb_observe_inv_def worker_with_backoff_step_def wb_observe_def)
    next
      case (WB_cas old b)
      with True Pair kp assms show ?thesis
        by (auto simp: wb_observe_inv_def worker_with_backoff_step_def wb_observe_def
            compare_exchange_weak_def min_def)
    next
      case (WB_pause old b j)
      from assms Pair kp WB_pause have inv: "0 < k" "b = min (2 ^ (k - 1)) 64" "0 \<le> j" "j \<le> b" "int p = j"
        by (auto simp: wb_observe_inv_def)
      show ?thesis
      proof (cases "j < b")
        case True
        have st: "worker_with_backoff_step n spur g l = (g, i, WB_pause old b (j + 1))"
          using True \<open>i < n\<close> Pair WB_pause by (simp add: worker_with_backoff_step_def)
        have ob: "wb_observe n spur g l kp = (k, Suc p)"
          using True \<open>i < n\<close> Pair WB_pause kp by (simp add: wb_observe_def)
        have "wb_observe_inv ((i, WB_pause old b (j + 1)), k, Suc p)"
          unfolding wb_observe_inv_def using inv True by simp
        with st ob show ?thesis by simp
      next
        case False
        from False inv(4) have jb: "j = b" by linarith
        have st: "snd (worker_with_backoff_step n spur g l) = (i, WB_cas old (min (b * 2) 64))"
          using False \<open>i < n\<close> Pair WB_pause by (simp add: worker_with_backoff_step_def)
        have ob: "wb_observe n spur g l kp = (k, p)"
          using False \<open>i < n\<close> Pair WB_pause kp by (simp add: wb_observe_def)
        have d: "min (b * 2) 64 = min (2 ^ k) 64"
          using min_double [of k] inv(1) unfolding inv(2) by simp
        have "int p = min (2 ^ (k - 1)) 64"
          using inv(5) jb inv(2) by (simp only:)
        then have "wb_observe_inv ((i, WB_cas old (min (b * 2) 64)), k, p)"
          unfolding wb_observe_inv_def d by simp
        with st ob show ?thesis by simp
      qed
    qed
  qed
qed

lemma wb_observe_run:
  "wb_observe_inv (mon_run (worker_with_backoff_step n) (wb_observe n) envs ((i0, WB_load), 0, 0))"
proof (rule mon_run_invariant)
  show "wb_observe_inv ((i0, WB_load), 0, 0)" by (simp add: wb_observe_inv_def)
qed (rule wb_observe_step)

text \<open>
  C7. The backoff of \<^verbatim>\<open>worker_with_backoff\<close>, for a thread started at the head of its
  loop and run against any behaviour of the other threads. The first five statements
  are the steps of the thread. The load that opens an outer iteration sets the delay
  to 1. A compare-and-swap that fails, because the counter is not \<open>old\<close> or spuriously,
  enters the pause loop with the delay it had and no pause done. One that succeeds
  ends the retry sequence. A turn of the pause loop with \<open>j < backoff\<close> is one pause.
  The turn with \<open>j \<ge> backoff\<close> leaves the loop with the delay doubled up to 64, counts
  the failure and goes back to the compare-and-swap. The last statement is about the
  whole run, with the failures counted from outside off the results of
  \<^verbatim>\<open>compare_exchange_weak\<close>: at the compare-and-swap after \<open>k\<close> consecutive failures
  the delay is \<open>min (2 ^ k) 64\<close>, so 1 at first, doubled by each failure and never above
  64, and \<open>min (2 ^ (k - 1)) 64\<close> pauses were executed between the \<open>k\<close>-th failure and
  this attempt; in the pause loop of the \<open>k\<close>-th failure the delay is
  \<open>min (2 ^ (k - 1)) 64\<close> and the pauses executed so far are \<open>j\<close>, never more than the
  delay.
\<close>

theorem backoff_delay:
  "(i < n \<longrightarrow> worker_with_backoff_step n spur g (i, WB_load) = (g, i, WB_cas (counter_with_backoff g) 1))
   \<and> (i < n \<and> \<not> fst (compare_exchange_weak spur (counter_with_backoff g) old (old + 1)) \<longrightarrow>
        worker_with_backoff_step n spur g (i, WB_cas old b)
          = (g, i, WB_pause (counter_with_backoff g) b 0))
   \<and> (i < n \<and> fst (compare_exchange_weak spur (counter_with_backoff g) old (old + 1)) \<longrightarrow>
        worker_with_backoff_step n spur g (i, WB_cas old b)
          = (g\<lparr>counter_with_backoff := old + 1\<rparr>, i + 1, WB_load))
   \<and> (i < n \<and> j < b \<longrightarrow>
        worker_with_backoff_step n spur g (i, WB_pause old b j) = (g, i, WB_pause old b (j + 1)))
   \<and> (i < n \<and> \<not> j < b \<longrightarrow>
        worker_with_backoff_step n spur g (i, WB_pause old b j)
          = (g\<lparr>failed_cas_count_with_backoff := failed_cas_count_with_backoff g + 1\<rparr>,
             i, WB_cas old (min (b * 2) 64)))
   \<and> (\<forall>l k p. mon_run (worker_with_backoff_step n) (wb_observe n) envs ((i0, WB_load), 0, 0) = (l, k, p) \<longrightarrow>
        (\<forall>old' b'. snd l = WB_cas old' b' \<longrightarrow>
              b' = min (2 ^ k) 64 \<and> (0 < k \<longrightarrow> int p = min (2 ^ (k - 1)) 64))
        \<and> (\<forall>old' b' j'. snd l = WB_pause old' b' j' \<longrightarrow>
              0 < k \<and> b' = min (2 ^ (k - 1)) 64 \<and> 0 \<le> j' \<and> j' \<le> b' \<and> int p = j'))"
proof -
  have a: "i < n \<longrightarrow> worker_with_backoff_step n spur g (i, WB_load) = (g, i, WB_cas (counter_with_backoff g) 1)"
    by (simp add: worker_with_backoff_step_def)
  have f: "i < n \<and> \<not> fst (compare_exchange_weak spur (counter_with_backoff g) old (old + 1)) \<longrightarrow>
        worker_with_backoff_step n spur g (i, WB_cas old b)
          = (g, i, WB_pause (counter_with_backoff g) b 0)"
    by (auto simp: worker_with_backoff_step_def compare_exchange_weak_def)
  have s: "i < n \<and> fst (compare_exchange_weak spur (counter_with_backoff g) old (old + 1)) \<longrightarrow>
        worker_with_backoff_step n spur g (i, WB_cas old b)
          = (g\<lparr>counter_with_backoff := old + 1\<rparr>, i + 1, WB_load)"
    by (auto simp: worker_with_backoff_step_def compare_exchange_weak_def)
  have b: "i < n \<and> j < b \<longrightarrow>
        worker_with_backoff_step n spur g (i, WB_pause old b j) = (g, i, WB_pause old b (j + 1))"
    by (simp add: worker_with_backoff_step_def)
  have e: "i < n \<and> \<not> j < b \<longrightarrow>
        worker_with_backoff_step n spur g (i, WB_pause old b j)
          = (g\<lparr>failed_cas_count_with_backoff := failed_cas_count_with_backoff g + 1\<rparr>,
             i, WB_cas old (min (b * 2) 64))"
    by (simp add: worker_with_backoff_step_def fetch_add_def)
  have c: "(\<forall>old' b'. snd l = WB_cas old' b' \<longrightarrow>
              b' = min (2 ^ k) 64 \<and> (0 < k \<longrightarrow> int p = min (2 ^ (k - 1)) 64))
        \<and> (\<forall>old' b' j'. snd l = WB_pause old' b' j' \<longrightarrow>
              0 < k \<and> b' = min (2 ^ (k - 1)) 64 \<and> 0 \<le> j' \<and> j' \<le> b' \<and> int p = j')"
    if "mon_run (worker_with_backoff_step n) (wb_observe n) envs ((i0, WB_load), 0, 0) = (l, k, p)" for l k p
    using wb_observe_run [of n envs i0] that by (cases l) (auto simp: wb_observe_inv_def)
  from a f s b e c show ?thesis by blast
qed

theorem backoff_delay_witness:
  "(0::nat) < 1
   \<and> worker_with_backoff_step 1 True
         \<lparr>counter_no_backoff = 0, counter_with_backoff = 5,
          failed_cas_count_no_backoff = 0, failed_cas_count_with_backoff = 0\<rparr> (0, WB_load)
       = (\<lparr>counter_no_backoff = 0, counter_with_backoff = 5,
          failed_cas_count_no_backoff = 0, failed_cas_count_with_backoff = 0\<rparr>, 0, WB_cas 5 1)
   \<and> \<not> fst (compare_exchange_weak True (5 :: cint) 5 (5 + 1))
   \<and> worker_with_backoff_step 1 True
         \<lparr>counter_no_backoff = 0, counter_with_backoff = 5,
          failed_cas_count_no_backoff = 0, failed_cas_count_with_backoff = 0\<rparr> (0, WB_cas 5 2)
       = (\<lparr>counter_no_backoff = 0, counter_with_backoff = 5,
          failed_cas_count_no_backoff = 0, failed_cas_count_with_backoff = 0\<rparr>, 0, WB_pause 5 2 0)
   \<and> (0::int) < 2
   \<and> worker_with_backoff_step 1 True
         \<lparr>counter_no_backoff = 0, counter_with_backoff = 5,
          failed_cas_count_no_backoff = 0, failed_cas_count_with_backoff = 0\<rparr> (0, WB_pause 5 2 0)
       = (\<lparr>counter_no_backoff = 0, counter_with_backoff = 5,
          failed_cas_count_no_backoff = 0, failed_cas_count_with_backoff = 0\<rparr>, 0, WB_pause 5 2 1)
   \<and> fst (compare_exchange_weak False (5 :: cint) 5 (5 + 1))
   \<and> worker_with_backoff_step 1 False
         \<lparr>counter_no_backoff = 0, counter_with_backoff = 5,
          failed_cas_count_no_backoff = 0, failed_cas_count_with_backoff = 0\<rparr> (0, WB_cas 5 2)
       = (\<lparr>counter_no_backoff = 0, counter_with_backoff = 6,
          failed_cas_count_no_backoff = 0, failed_cas_count_with_backoff = 0\<rparr>, 1, WB_load)
   \<and> \<not> (2::int) < 2
   \<and> worker_with_backoff_step 1 False
         \<lparr>counter_no_backoff = 0, counter_with_backoff = 5,
          failed_cas_count_no_backoff = 0, failed_cas_count_with_backoff = 0\<rparr> (0, WB_pause 5 2 2)
       = (\<lparr>counter_no_backoff = 0, counter_with_backoff = 5,
          failed_cas_count_no_backoff = 0, failed_cas_count_with_backoff = 1\<rparr>, 0, WB_cas 5 4)
   \<and> mon_run (worker_with_backoff_step 1) (wb_observe 1)
         (map (\<lambda>spur. (spur, \<lparr>counter_no_backoff = 0, counter_with_backoff = 5,
          failed_cas_count_no_backoff = 0, failed_cas_count_with_backoff = 0\<rparr>))
            [False, True, False, False, True, False, False, False]) ((0, WB_load), 0, 0)
       = ((0, WB_cas 5 4), 2, 2)
   \<and> (4::int) = min (2 ^ 2) 64 \<and> int 2 = min (2 ^ (2 - 1)) 64"
  using backoff_delay [where i = 0 and n = 1 and spur = True and old = 5 and b = 2 and j = 0
      and ?i0.0 = 0
      and g = "\<lparr>counter_no_backoff = 0, counter_with_backoff = 5,
          failed_cas_count_no_backoff = 0, failed_cas_count_with_backoff = 0\<rparr>"
      and envs = "(map (\<lambda>spur. (spur, \<lparr>counter_no_backoff = 0, counter_with_backoff = 5,
          failed_cas_count_no_backoff = 0, failed_cas_count_with_backoff = 0\<rparr>))
            [False, True, False, False, True, False, False, False])"]
    backoff_delay [where i = 0 and n = 1 and spur = False and old = 5 and b = 2 and j = 2
      and ?i0.0 = 0
      and g = "\<lparr>counter_no_backoff = 0, counter_with_backoff = 5,
          failed_cas_count_no_backoff = 0, failed_cas_count_with_backoff = 0\<rparr>"
      and envs = "[]"]
  by (simp add: worker_with_backoff_step_def wb_observe_def compare_exchange_weak_def fetch_add_def)


section \<open>09: backoff does not change the result\<close>

lemma no_backoff_counts:
  "(counter_no_backoff (fst (worker_no_backoff_step n spur g l)) = counter_no_backoff g
      \<and> fst (snd (worker_no_backoff_step n spur g l)) = fst l)
   \<or> (counter_no_backoff (fst (worker_no_backoff_step n spur g l)) = counter_no_backoff g + 1
      \<and> fst (snd (worker_no_backoff_step n spur g l)) = Suc (fst l))"
proof (cases l)
  case (Pair i pc)
  then show ?thesis
    by (cases pc) (auto simp: worker_no_backoff_step_def compare_exchange_weak_def)
qed

lemma no_backoff_bound:
  "fst l \<le> n \<Longrightarrow> fst (snd (worker_no_backoff_step n spur g l)) \<le> n"
proof (cases l)
  case (Pair i pc)
  assume "fst l \<le> n"
  with Pair show ?thesis
    by (cases pc) (auto simp: worker_no_backoff_step_def compare_exchange_weak_def)
qed

lemma with_backoff_counts:
  "(counter_with_backoff (fst (worker_with_backoff_step n spur g l)) = counter_with_backoff g
      \<and> fst (snd (worker_with_backoff_step n spur g l)) = fst l)
   \<or> (counter_with_backoff (fst (worker_with_backoff_step n spur g l)) = counter_with_backoff g + 1
      \<and> fst (snd (worker_with_backoff_step n spur g l)) = Suc (fst l))"
proof (cases l)
  case (Pair i pc)
  then show ?thesis
    by (cases pc) (auto simp: worker_with_backoff_step_def compare_exchange_weak_def)
qed

lemma with_backoff_bound:
  "fst l \<le> n \<Longrightarrow> fst (snd (worker_with_backoff_step n spur g l)) \<le> n"
proof (cases l)
  case (Pair i pc)
  assume "fst l \<le> n"
  with Pair show ?thesis
    by (cases pc) (auto simp: worker_with_backoff_step_def compare_exchange_weak_def)
qed

lemma with_backoff_frame:
  "counter_no_backoff (fst (worker_with_backoff_step n spur g l)) = counter_no_backoff g"
proof (cases l)
  case (Pair i pc)
  then show ?thesis
    by (cases pc) (auto simp: worker_with_backoff_step_def compare_exchange_weak_def)
qed

lemma no_backoff_total:
  assumes "run (worker_no_backoff_step n) sch (g0, replicate N (0, NB_load)) = (g, ls)"
    and "counter_no_backoff g0 = 0" and "list_all (\<lambda>l. \<not> fst l < n) ls"
  shows "counter_no_backoff g = word_of_nat (N * n)"
proof -
  have inv: "counter_no_backoff (fst (run (worker_no_backoff_step n) sch (g0, replicate N (0, NB_load))))
      = word_of_nat (sum_list (map fst (snd (run (worker_no_backoff_step n) sch (g0, replicate N (0, NB_load))))))
    \<and> list_all (\<lambda>l. fst l \<le> n) (snd (run (worker_no_backoff_step n) sch (g0, replicate N (0, NB_load))))"
  proof (rule counting_invariant)
    have z: "sum_list (map fst (replicate N (0::nat, NB_load))) = 0" by (induction N) simp_all
    show "counter_no_backoff g0 = word_of_nat (sum_list (map fst (replicate N (0, NB_load))))"
      unfolding z using assms(2) by simp
  qed (simp_all add: no_backoff_counts no_backoff_bound list_all_iff)
  have len: "length ls = N"
    using length_run [of "worker_no_backoff_step n" sch "(g0, replicate N (0, NB_load))"] assms(1) by simp
  from inv assms(1,3) have "sum_list (map fst ls) = length ls * n"
    by (intro counting_joined) simp_all
  with inv assms(1) len show ?thesis by simp
qed

lemma with_backoff_total:
  assumes "run (worker_with_backoff_step n) sch (g0, replicate N (0, WB_load)) = (g, ls)"
    and "counter_with_backoff g0 = 0" and "list_all (\<lambda>l. \<not> fst l < n) ls"
  shows "counter_with_backoff g = word_of_nat (N * n)"
proof -
  have inv: "counter_with_backoff (fst (run (worker_with_backoff_step n) sch (g0, replicate N (0, WB_load))))
      = word_of_nat (sum_list (map fst (snd (run (worker_with_backoff_step n) sch (g0, replicate N (0, WB_load))))))
    \<and> list_all (\<lambda>l. fst l \<le> n) (snd (run (worker_with_backoff_step n) sch (g0, replicate N (0, WB_load))))"
  proof (rule counting_invariant)
    have z: "sum_list (map fst (replicate N (0::nat, WB_load))) = 0" by (induction N) simp_all
    show "counter_with_backoff g0 = word_of_nat (sum_list (map fst (replicate N (0, WB_load))))"
      unfolding z using assms(2) by simp
  qed (simp_all add: with_backoff_counts with_backoff_bound list_all_iff)
  have len: "length ls = N"
    using length_run [of "worker_with_backoff_step n" sch "(g0, replicate N (0, WB_load))"] assms(1) by simp
  from inv assms(1,3) have "sum_list (map fst ls) = length ls * n"
    by (intro counting_joined) simp_all
  with inv assms(1) len show ?thesis by simp
qed

lemma with_backoff_run_frame:
  "counter_no_backoff (fst (run (worker_with_backoff_step n) sch (g0, ls))) = counter_no_backoff g0"
  by (rule run_shared_invariant [where P = "\<lambda>g. counter_no_backoff g = counter_no_backoff g0"])
    (simp_all add: with_backoff_frame)

subsection \<open>Every thread can finish\<close>

text \<open>
  From any point of its loop and in any memory, a worker that is run alone with no
  spurious failure finishes its iterations: a compare-and-swap with a stale \<open>old\<close> fails
  once, the pause loop is left after \<open>backoff - j\<close> turns, and the retry succeeds.
\<close>

lemma no_backoff_iteration:
  assumes "i < n"
  shows "\<exists>cs. snd (solo (worker_no_backoff_step n) cs (g, (i, pc))) = (Suc i, NB_load)"
proof -
  have cas: "\<exists>cs. snd (solo (worker_no_backoff_step n) cs (g, (i, NB_cas old))) = (Suc i, NB_load)"
    for g old
  proof (cases "counter_no_backoff g = old")
    case True
    then have "snd (solo (worker_no_backoff_step n) [False] (g, (i, NB_cas old))) = (Suc i, NB_load)"
      using assms by (simp add: worker_no_backoff_step_def compare_exchange_weak_def)
    then show ?thesis ..
  next
    case False
    then have "snd (solo (worker_no_backoff_step n) [False, False, False] (g, (i, NB_cas old)))
        = (Suc i, NB_load)"
      using assms by (simp add: worker_no_backoff_step_def compare_exchange_weak_def fetch_add_def)
    then show ?thesis ..
  qed
  show ?thesis
  proof (cases pc)
    case NB_load
    from cas [of g "counter_no_backoff g"] obtain cs where
      "snd (solo (worker_no_backoff_step n) cs (g, (i, NB_cas (counter_no_backoff g)))) = (Suc i, NB_load)" ..
    then have "snd (solo (worker_no_backoff_step n) (False # cs) (g, (i, pc))) = (Suc i, NB_load)"
      using assms NB_load by (simp add: worker_no_backoff_step_def)
    then show ?thesis ..
  next
    case (NB_cas old)
    with cas show ?thesis by simp
  next
    case (NB_count old)
    let ?g = "g\<lparr>failed_cas_count_no_backoff := fst (fetch_add (failed_cas_count_no_backoff g) 1)\<rparr>"
    from cas [of ?g old] obtain cs where
      "snd (solo (worker_no_backoff_step n) cs (?g, (i, NB_cas old))) = (Suc i, NB_load)" ..
    then have "snd (solo (worker_no_backoff_step n) (False # cs) (g, (i, pc))) = (Suc i, NB_load)"
      using assms NB_count by (simp add: worker_no_backoff_step_def)
    then show ?thesis ..
  qed
qed

lemma no_backoff_returns:
  "\<exists>cs. \<not> fst (snd (solo (worker_no_backoff_step n) cs (g, l))) < n"
proof (induction "n - fst l" arbitrary: g l)
  case 0
  then have "\<not> fst (snd (solo (worker_no_backoff_step n) [] (g, l))) < n" by simp
  then show ?case ..
next
  case (Suc k)
  obtain i pc where l: "l = (i, pc)" by (cases l)
  with Suc.hyps(2) have i: "i < n" by simp
  from no_backoff_iteration [OF i, of g pc] obtain cs1 where
    cs1: "snd (solo (worker_no_backoff_step n) cs1 (g, (i, pc))) = (Suc i, NB_load)" ..
  let ?g = "fst (solo (worker_no_backoff_step n) cs1 (g, (i, pc)))"
  have "k = n - fst (Suc i, NB_load)" using Suc.hyps(2) l by simp
  from Suc.hyps(1) [OF this, of ?g] obtain cs2 where
    cs2: "\<not> fst (snd (solo (worker_no_backoff_step n) cs2 (?g, (Suc i, NB_load)))) < n" ..
  have "solo (worker_no_backoff_step n) (cs1 @ cs2) (g, l)
      = solo (worker_no_backoff_step n) cs2 (?g, (Suc i, NB_load))"
    unfolding solo_append l cs1 [symmetric] by simp
  with cs2 have "\<not> fst (snd (solo (worker_no_backoff_step n) (cs1 @ cs2) (g, l))) < n" by simp
  then show ?case ..
qed

lemma pause_loop_exits:
  assumes "i < n"
  shows "\<exists>cs. solo (worker_with_backoff_step n) cs (g, (i, WB_pause old b j))
           = (g\<lparr>failed_cas_count_with_backoff := failed_cas_count_with_backoff g + 1\<rparr>,
              (i, WB_cas old (min (b * 2) 64)))"
proof (induction "nat (b - j)" arbitrary: j)
  case 0
  then have "\<not> j < b" by simp
  then have "solo (worker_with_backoff_step n) [False] (g, (i, WB_pause old b j))
           = (g\<lparr>failed_cas_count_with_backoff := failed_cas_count_with_backoff g + 1\<rparr>,
              (i, WB_cas old (min (b * 2) 64)))"
    using assms by (simp add: worker_with_backoff_step_def fetch_add_def)
  then show ?case ..
next
  case (Suc k)
  then have j: "j < b" and k: "k = nat (b - (j + 1))" by simp_all
  from Suc.hyps(1) [OF k] obtain cs where
    cs: "solo (worker_with_backoff_step n) cs (g, (i, WB_pause old b (j + 1)))
           = (g\<lparr>failed_cas_count_with_backoff := failed_cas_count_with_backoff g + 1\<rparr>,
              (i, WB_cas old (min (b * 2) 64)))" ..
  have "solo (worker_with_backoff_step n) (False # cs) (g, (i, WB_pause old b j))
           = (g\<lparr>failed_cas_count_with_backoff := failed_cas_count_with_backoff g + 1\<rparr>,
              (i, WB_cas old (min (b * 2) 64)))"
    using assms j cs by (simp add: worker_with_backoff_step_def)
  then show ?case ..
qed

lemma with_backoff_cas_succeeds:
  assumes "i < n" and "counter_with_backoff g = old"
  shows "snd (solo (worker_with_backoff_step n) [False] (g, (i, WB_cas old b))) = (Suc i, WB_load)"
  using assms by (simp add: worker_with_backoff_step_def compare_exchange_weak_def)

lemma with_backoff_after_pause:
  assumes "i < n" and "counter_with_backoff g = old"
  shows "\<exists>cs. snd (solo (worker_with_backoff_step n) cs (g, (i, WB_pause old b j))) = (Suc i, WB_load)"
proof -
  from pause_loop_exits [OF assms(1), of g old b j] obtain cs where
    cs: "solo (worker_with_backoff_step n) cs (g, (i, WB_pause old b j))
           = (g\<lparr>failed_cas_count_with_backoff := failed_cas_count_with_backoff g + 1\<rparr>,
              (i, WB_cas old (min (b * 2) 64)))" ..
  have "snd (solo (worker_with_backoff_step n) (cs @ [False]) (g, (i, WB_pause old b j))) = (Suc i, WB_load)"
    unfolding solo_append cs using assms by (intro with_backoff_cas_succeeds) simp_all
  then show ?thesis ..
qed

lemma with_backoff_from_cas:
  assumes "i < n"
  shows "\<exists>cs. snd (solo (worker_with_backoff_step n) cs (g, (i, WB_cas old b))) = (Suc i, WB_load)"
proof (cases "counter_with_backoff g = old")
  case True
  with assms with_backoff_cas_succeeds [of i n g old b] show ?thesis by blast
next
  case False
  from with_backoff_after_pause [OF assms refl, of g b 0] obtain cs where
    cs: "snd (solo (worker_with_backoff_step n) cs (g, (i, WB_pause (counter_with_backoff g) b 0)))
          = (Suc i, WB_load)" ..
  have "worker_with_backoff_step n False g (i, WB_cas old b) = (g, i, WB_pause (counter_with_backoff g) b 0)"
    using assms False by (simp add: worker_with_backoff_step_def compare_exchange_weak_def)
  with cs have "snd (solo (worker_with_backoff_step n) (False # cs) (g, (i, WB_cas old b))) = (Suc i, WB_load)"
    by simp
  then show ?thesis ..
qed

lemma with_backoff_iteration:
  assumes "i < n"
  shows "\<exists>cs. snd (solo (worker_with_backoff_step n) cs (g, (i, pc))) = (Suc i, WB_load)"
proof (cases pc)
  case WB_load
  from with_backoff_from_cas [OF assms, of g "counter_with_backoff g" 1] obtain cs where
    "snd (solo (worker_with_backoff_step n) cs (g, (i, WB_cas (counter_with_backoff g) 1))) = (Suc i, WB_load)" ..
  then have "snd (solo (worker_with_backoff_step n) (False # cs) (g, (i, pc))) = (Suc i, WB_load)"
    using assms WB_load by (simp add: worker_with_backoff_step_def)
  then show ?thesis ..
next
  case (WB_cas old b)
  with with_backoff_from_cas [OF assms] show ?thesis by simp
next
  case (WB_pause old b j)
  from pause_loop_exits [OF assms, of g old b j] obtain cs1 where
    cs1: "solo (worker_with_backoff_step n) cs1 (g, (i, WB_pause old b j))
           = (g\<lparr>failed_cas_count_with_backoff := failed_cas_count_with_backoff g + 1\<rparr>,
              (i, WB_cas old (min (b * 2) 64)))" ..
  from with_backoff_from_cas [OF assms] obtain cs2 where
    cs2: "snd (solo (worker_with_backoff_step n) cs2
             (g\<lparr>failed_cas_count_with_backoff := failed_cas_count_with_backoff g + 1\<rparr>,
              (i, WB_cas old (min (b * 2) 64)))) = (Suc i, WB_load)" ..
  have "snd (solo (worker_with_backoff_step n) (cs1 @ cs2) (g, (i, pc))) = (Suc i, WB_load)"
    unfolding solo_append WB_pause cs1 by (rule cs2)
  then show ?thesis ..
qed

lemma with_backoff_returns:
  "\<exists>cs. \<not> fst (snd (solo (worker_with_backoff_step n) cs (g, l))) < n"
proof (induction "n - fst l" arbitrary: g l)
  case 0
  then have "\<not> fst (snd (solo (worker_with_backoff_step n) [] (g, l))) < n" by simp
  then show ?case ..
next
  case (Suc k)
  obtain i pc where l: "l = (i, pc)" by (cases l)
  with Suc.hyps(2) have i: "i < n" by simp
  from with_backoff_iteration [OF i, of g pc] obtain cs1 where
    cs1: "snd (solo (worker_with_backoff_step n) cs1 (g, (i, pc))) = (Suc i, WB_load)" ..
  let ?g = "fst (solo (worker_with_backoff_step n) cs1 (g, (i, pc)))"
  have "k = n - fst (Suc i, WB_load)" using Suc.hyps(2) l by simp
  from Suc.hyps(1) [OF this, of ?g] obtain cs2 where
    cs2: "\<not> fst (snd (solo (worker_with_backoff_step n) cs2 (?g, (Suc i, WB_load)))) < n" ..
  have "solo (worker_with_backoff_step n) (cs1 @ cs2) (g, l)
      = solo (worker_with_backoff_step n) cs2 (?g, (Suc i, WB_load))"
    unfolding solo_append l cs1 [symmetric] by simp
  with cs2 have "\<not> fst (snd (solo (worker_with_backoff_step n) (cs1 @ cs2) (g, l))) < n" by simp
  then show ?case ..
qed

lemma no_backoff_can_join:
  "\<exists>sch'. list_all (\<lambda>l. \<not> fst l < n) (snd (run (worker_no_backoff_step n) (sch @ sch') s))"
  unfolding run_append
  by (rule can_join [where I = "\<lambda>_. True"]) (simp_all add: no_backoff_returns)

lemma with_backoff_can_join:
  "\<exists>sch'. list_all (\<lambda>l. \<not> fst l < n) (snd (run (worker_with_backoff_step n) (sch @ sch') s))"
  unfolding run_append
  by (rule can_join [where I = "\<lambda>_. True"]) (simp_all add: with_backoff_returns)

lemma main09_can_join:
  "\<exists>sch1' sch2'. joined09 n (main09 N n (sch1 @ sch1') (sch2 @ sch2') g0)"
proof -
  from no_backoff_can_join [of n sch1 "(g0\<lparr>counter_no_backoff := 0, failed_cas_count_no_backoff := 0\<rparr>,
              replicate N (0, NB_load))"]
  obtain sch1' where j1: "list_all (\<lambda>l. \<not> fst l < n) (snd (run (worker_no_backoff_step n) (sch1 @ sch1')
       (g0\<lparr>counter_no_backoff := 0, failed_cas_count_no_backoff := 0\<rparr>, replicate N (0, NB_load))))" ..
  obtain g1 ls1 where r1: "run (worker_no_backoff_step n) (sch1 @ sch1')
       (g0\<lparr>counter_no_backoff := 0, failed_cas_count_no_backoff := 0\<rparr>, replicate N (0, NB_load)) = (g1, ls1)"
    by (cases "run (worker_no_backoff_step n) (sch1 @ sch1')
       (g0\<lparr>counter_no_backoff := 0, failed_cas_count_no_backoff := 0\<rparr>, replicate N (0, NB_load))")
  from with_backoff_can_join [of n sch2 "(g1\<lparr>counter_with_backoff := 0, failed_cas_count_with_backoff := 0\<rparr>,
                   replicate N (0, WB_load))"]
  obtain sch2' where j2: "list_all (\<lambda>l. \<not> fst l < n) (snd (run (worker_with_backoff_step n) (sch2 @ sch2')
       (g1\<lparr>counter_with_backoff := 0, failed_cas_count_with_backoff := 0\<rparr>, replicate N (0, WB_load))))" ..
  have "joined09 n (main09 N n (sch1 @ sch1') (sch2 @ sch2') g0)"
    using j1 j2 r1 by (auto simp: joined09_def main09_def split: prod.splits)
  then show ?thesis by blast
qed

subsection \<open>The final values\<close>

lemma joined_counters:
  "joined09 n (main09 N n sch1 sch2 g0) \<longrightarrow>
     counter_no_backoff (fst (main09 N n sch1 sch2 g0)) = word_of_nat (N * n)
     \<and> counter_with_backoff (fst (main09 N n sch1 sch2 g0)) = word_of_nat (N * n)
     \<and> counter_with_backoff (fst (main09 N n sch1 sch2 g0))
         = counter_no_backoff (fst (main09 N n sch1 sch2 g0))"
proof
  assume j: "joined09 n (main09 N n sch1 sch2 g0)"
  obtain g1 ls1 where r1: "run (worker_no_backoff_step n) sch1
             (g0\<lparr>counter_no_backoff := 0, failed_cas_count_no_backoff := 0\<rparr>,
              replicate N (0, NB_load)) = (g1, ls1)"
    by (cases "run (worker_no_backoff_step n) sch1
             (g0\<lparr>counter_no_backoff := 0, failed_cas_count_no_backoff := 0\<rparr>,
              replicate N (0, NB_load))") 
  obtain g2 ls2 where r2: "run (worker_with_backoff_step n) sch2
                  (g1\<lparr>counter_with_backoff := 0, failed_cas_count_with_backoff := 0\<rparr>,
                   replicate N (0, WB_load)) = (g2, ls2)"
    by (cases "run (worker_with_backoff_step n) sch2
                  (g1\<lparr>counter_with_backoff := 0, failed_cas_count_with_backoff := 0\<rparr>,
                   replicate N (0, WB_load))")
  have m: "main09 N n sch1 sch2 g0 = (g2, ls1, ls2)"
    by (simp add: main09_def r1 r2)
  from j m have j1: "list_all (\<lambda>l. \<not> fst l < n) ls1" and j2: "list_all (\<lambda>l. \<not> fst l < n) ls2"
    by (simp_all add: joined09_def)
  have c1: "counter_no_backoff g1 = word_of_nat (N * n)"
    using r1 _ j1 by (rule no_backoff_total) simp
  have c2: "counter_with_backoff g2 = word_of_nat (N * n)"
    using r2 _ j2 by (rule with_backoff_total) simp
  have "counter_no_backoff g2 = counter_no_backoff g1"
    using with_backoff_run_frame [of n sch2 "g1\<lparr>counter_with_backoff := 0, failed_cas_count_with_backoff := 0\<rparr>" "replicate N (0, WB_load)"] r2
    by simp
  with c1 c2 m show "counter_no_backoff (fst (main09 N n sch1 sch2 g0)) = word_of_nat (N * n)
     \<and> counter_with_backoff (fst (main09 N n sch1 sch2 g0)) = word_of_nat (N * n)
     \<and> counter_with_backoff (fst (main09 N n sch1 sch2 g0))
         = counter_no_backoff (fst (main09 N n sch1 sch2 g0))"
    by simp
qed

text \<open>
  C8. \<^verbatim>\<open>main\<close> of the backoff comparison, for every number of threads \<open>N\<close> and every
  number of iterations \<open>n\<close>. Both tests leave a final value: whatever the threads of
  the two tests have done so far (\<open>sch1\<close>, \<open>sch2\<close>, with any failures and pauses), the
  schedules can be continued so that all threads of both tests finish. And under
  every pair of schedules under which they have finished, the counter of the workers
  without backoff and the counter of the workers with backoff hold the same value,
  \<open>N * n\<close> as a 32-bit value, which is the number \<open>N * n\<close> when it fits in an \<^verbatim>\<open>int\<close>.
  The pauses and the failure counts change neither.
\<close>

theorem backoff_same_result:
  "(\<exists>sch1' sch2'. joined09 n (main09 N n (sch1 @ sch1') (sch2 @ sch2') g0))
   \<and> (joined09 n (main09 N n sch1 sch2 g0) \<longrightarrow>
         counter_no_backoff (fst (main09 N n sch1 sch2 g0)) = word_of_nat (N * n)
         \<and> counter_with_backoff (fst (main09 N n sch1 sch2 g0)) = word_of_nat (N * n)
         \<and> counter_with_backoff (fst (main09 N n sch1 sch2 g0))
             = counter_no_backoff (fst (main09 N n sch1 sch2 g0))
         \<and> (N * n < 2 ^ 31 \<longrightarrow>
               sint (counter_no_backoff (fst (main09 N n sch1 sch2 g0))) = int (N * n)
               \<and> sint (counter_with_backoff (fst (main09 N n sch1 sch2 g0))) = int (N * n)))"
proof (intro conjI impI)
  show "\<exists>sch1' sch2'. joined09 n (main09 N n (sch1 @ sch1') (sch2 @ sch2') g0)"
    by (rule main09_can_join)
next
  assume j: "joined09 n (main09 N n sch1 sch2 g0)"
  from joined_counters [of n N sch1 sch2 g0] j
  show "counter_no_backoff (fst (main09 N n sch1 sch2 g0)) = word_of_nat (N * n)"
    and "counter_with_backoff (fst (main09 N n sch1 sch2 g0)) = word_of_nat (N * n)"
    and "counter_with_backoff (fst (main09 N n sch1 sch2 g0))
             = counter_no_backoff (fst (main09 N n sch1 sch2 g0))"
    by simp_all
next
  assume j: "joined09 n (main09 N n sch1 sch2 g0)" and b: "N * n < 2 ^ 31"
  from joined_counters [of n N sch1 sch2 g0] j
  show "sint (counter_no_backoff (fst (main09 N n sch1 sch2 g0))) = int (N * n)"
    using sint_of_nat32 [OF b] by simp
next
  assume j: "joined09 n (main09 N n sch1 sch2 g0)" and b: "N * n < 2 ^ 31"
  from joined_counters [of n N sch1 sch2 g0] j
  show "sint (counter_with_backoff (fst (main09 N n sch1 sch2 g0))) = int (N * n)"
    using sint_of_nat32 [OF b] by simp
qed

theorem backoff_same_result_witness:
  "joined09 2
     (main09 2 2 [(0, False), (1, False), (0, False), (1, False), (1, False), (1, False), (0, False), (0, False), (1, False), (1, False)]
        [(0, False), (1, False), (0, False), (1, False), (1, False), (1, False), (1, False), (0, False), (0, False), (1, False), (1, False)]
        \<lparr>counter_no_backoff = 7, counter_with_backoff = 5,
         failed_cas_count_no_backoff = 3, failed_cas_count_with_backoff = 9\<rparr>)
   \<and> main09 2 2 [(0, False), (1, False), (0, False), (1, False), (1, False), (1, False), (0, False), (0, False), (1, False), (1, False)]
        [(0, False), (1, False), (0, False), (1, False), (1, False), (1, False), (1, False), (0, False), (0, False), (1, False), (1, False)]
        \<lparr>counter_no_backoff = 7, counter_with_backoff = 5,
         failed_cas_count_no_backoff = 3, failed_cas_count_with_backoff = 9\<rparr>
     = (\<lparr>counter_no_backoff = 4, counter_with_backoff = 4,
         failed_cas_count_no_backoff = 1, failed_cas_count_with_backoff = 1\<rparr>,
        [(2, NB_load), (2, NB_load)], [(2, WB_load), (2, WB_load)])
   \<and> (2::nat) * 2 < 2 ^ 31"
proof -
  have m: "main09 2 2 [(0, False), (1, False), (0, False), (1, False), (1, False), (1, False), (0, False), (0, False), (1, False), (1, False)]
        [(0, False), (1, False), (0, False), (1, False), (1, False), (1, False), (1, False), (0, False), (0, False), (1, False), (1, False)]
        \<lparr>counter_no_backoff = 7, counter_with_backoff = 5,
         failed_cas_count_no_backoff = 3, failed_cas_count_with_backoff = 9\<rparr>
     = (\<lparr>counter_no_backoff = 4, counter_with_backoff = 4,
         failed_cas_count_no_backoff = 1, failed_cas_count_with_backoff = 1\<rparr>,
        [(2, NB_load), (2, NB_load)], [(2, WB_load), (2, WB_load)])"
    by (simp add: main09_def sched_step_def worker_no_backoff_step_def
        worker_with_backoff_step_def compare_exchange_weak_def fetch_add_def numeral_2_eq_2)
  then have j: "joined09 2
     (main09 2 2 [(0, False), (1, False), (0, False), (1, False), (1, False), (1, False), (0, False), (0, False), (1, False), (1, False)]
        [(0, False), (1, False), (0, False), (1, False), (1, False), (1, False), (1, False), (0, False), (0, False), (1, False), (1, False)]
        \<lparr>counter_no_backoff = 7, counter_with_backoff = 5,
         failed_cas_count_no_backoff = 3, failed_cas_count_with_backoff = 9\<rparr>)"
    by (simp add: joined09_def)
  show ?thesis
    using j m backoff_same_result [where n = 2 and N = 2
        and ?sch1.0 = "[(0, False), (1, False), (0, False), (1, False), (1, False), (1, False), (0, False), (0, False), (1, False), (1, False)]"
        and ?sch2.0 = "[(0, False), (1, False), (0, False), (1, False), (1, False), (1, False), (1, False), (0, False), (0, False), (1, False), (1, False)]"
        and ?g0.0 = "\<lparr>counter_no_backoff = 7, counter_with_backoff = 5,
         failed_cas_count_no_backoff = 3, failed_cas_count_with_backoff = 9\<rparr>"]
    by simp
qed


section \<open>06: conservation of the stack\<close>

subsection \<open>Chains\<close>

lemma chain_unique: "chain h p xs \<Longrightarrow> chain h p ys \<Longrightarrow> xs = ys"
proof (induction xs arbitrary: p ys)
  case Nil
  then show ?case by (cases ys) simp_all
next
  case (Cons x xs)
  then show ?case by (cases ys) (auto simp: prod_eq_iff)
qed

lemma chain_live: "chain h p xs \<Longrightarrow> (a, nd) \<in> set xs \<Longrightarrow> h a = Some nd"
  by (induction xs arbitrary: p) auto

lemma chain_frame: "a \<notin> fst ` set xs \<Longrightarrow> chain (h(a := x)) p xs = chain h p xs"
  by (induction xs arbitrary: p) auto

lemma chain_suffix_shorter:
  "chain h p xs \<Longrightarrow> chain h p (ys @ xs) \<Longrightarrow> ys = []"
  using chain_unique [of h p xs "ys @ xs"] by simp

lemma chain_distinct: "chain h p xs \<Longrightarrow> distinct (map fst xs)"
proof (induction xs arbitrary: p)
  case Nil
  then show ?case by simp
next
  case (Cons x xs)
  then have c: "chain h (nxt (snd x)) xs" and hx: "h (fst x) = Some (snd x)" by simp_all
  have "fst x \<notin> fst ` set xs"
  proof
    assume "fst x \<in> fst ` set xs"
    then obtain nd where "(fst x, nd) \<in> set xs" by auto
    then obtain ys zs where xs: "xs = ys @ (fst x, nd) # zs" by (auto simp: in_set_conv_decomp)
    with c have "h (fst x) = Some nd" by (auto intro: chain_live)
    with hx have nd: "nd = snd x" by simp
    have "\<And>q. chain h q (ys @ (fst x, nd) # zs) \<Longrightarrow> chain h (nxt nd) zs"
      by (induction ys) auto
    with c xs have "chain h (nxt (snd x)) zs" using nd by blast
    moreover from c xs have "chain h (nxt (snd x)) ((ys @ [(fst x, nd)]) @ zs)" by simp
    ultimately have "ys @ [(fst x, nd)] = []" by (rule chain_suffix_shorter)
    then show False by simp
  qed
  with Cons.IH [OF c] show ?case by simp
qed

lemma chain_head: "chain h (Some a) xs \<Longrightarrow> \<exists>nd ys. xs = (a, nd) # ys \<and> h a = Some nd \<and> chain h (nxt nd) ys"
  by (cases xs) (auto simp: prod_eq_iff)


subsection \<open>What a control point needs of the memory\<close>

lemma pc_ok_store_upd:
  "owns pc \<noteq> Some a \<Longrightarrow> pc_ok (h(a := x)) xs ov pc = pc_ok h xs ov pc"
  by (induction h xs ov pc rule: pc_ok.induct) auto

lemma pc_ok_chain_push:
  "owns pc \<noteq> Some a \<Longrightarrow> pc_ok h xs ov pc \<Longrightarrow> pc_ok h ((a, nd) # xs) ov pc"
  by (induction h xs ov pc rule: pc_ok.induct) auto

lemma pc_ok_chain_pop:
  "\<not> in_pop_call pc \<Longrightarrow> pc_ok h (x # xs) ov pc \<Longrightarrow> pc_ok h xs ov pc"
  by (induction h xs ov pc rule: pc_ok.induct) auto

lemma pc_ok_owns:
  "pc_ok h xs ov pc \<Longrightarrow> owns pc = Some a \<Longrightarrow> h a \<noteq> None \<and> a \<notin> fst ` set xs"
  by (induction h xs ov pc rule: pc_ok.induct) auto

lemma shape_update:
  assumes sh: "shape p (m, ths) xs" and t: "t < length ths"
    and ch: "chain (store m') (head m') xs'"
    and own: "thread_ok (store m') xs' th'"
    and others: "\<And>i. i < length ths \<Longrightarrow> i \<noteq> t \<Longrightarrow> thread_ok (store m') xs' (ths ! i)"
    and dis: "\<And>i. i < length ths \<Longrightarrow> i \<noteq> t \<Longrightarrow>
        owns (th_pc th') = None \<or> owns (th_pc th') \<noteq> owns (th_pc (ths ! i))"
    and po: "t \<noteq> p \<Longrightarrow> push_only th'"
  shows "shape p (m', ths[t := th']) xs'"
proof -
  have a: "\<forall>i<length (ths[t := th']). thread_ok (store m') xs' (ths[t := th'] ! i)"
    using own others t by (auto simp: nth_list_update)
  have b: "owns (th_pc (ths[t := th'] ! i)) = None
        \<or> owns (th_pc (ths[t := th'] ! i)) \<noteq> owns (th_pc (ths[t := th'] ! j))"
    if "i < length ths" "j < length ths" "i \<noteq> j" for i j
  proof (cases "i = t")
    case True
    with that dis [of j] t show ?thesis by (simp add: nth_list_update)
  next
    case False
    note it = this
    show ?thesis
    proof (cases "j = t")
      case True
      with that it dis [of i] t show ?thesis by (auto simp: nth_list_update)
    next
      case False
      with that it sh t show ?thesis by (simp add: shape_def nth_list_update)
    qed
  qed
  have c: "\<forall>i<length (ths[t := th']). i \<noteq> p \<longrightarrow> push_only (ths[t := th'] ! i)"
    using sh po t by (auto simp: shape_def nth_list_update)
  from ch a b c show ?thesis by (simp add: shape_def)
qed

lemma pc_ok_others:
  assumes ok: "pc_ok h xs ov pc"
    and dis: "owns pc = None \<or> owns pc \<noteq> opc"
    and xs': "xs' = xs \<or> (xs' = x0 # xs \<and> opc = Some (fst x0)) \<or> (\<not> in_pop_call pc \<and> xs = x0 # xs')"
  shows "pc_ok h xs' ov pc"
  using xs'
proof (elim disjE conjE)
  assume "xs' = xs"
  with ok show ?thesis by simp
next
  assume "xs' = x0 # xs" "opc = Some (fst x0)"
  with ok dis show ?thesis using pc_ok_chain_push [of pc "fst x0" h xs ov "snd x0"] by auto
next
  assume "\<not> in_pop_call pc" "xs = x0 # xs'"
  with ok show ?thesis by (auto intro: pc_ok_chain_pop)
qed

lemma shape_others_same:
  assumes sh: "shape p (m, ths) xs" and t: "t < length ths" and i: "i < length ths" "i \<noteq> t"
    and xs': "xs' = xs \<or> (xs' = x0 # xs \<and> owns (th_pc (ths ! t)) = Some (fst x0))
               \<or> (t = p \<and> xs = x0 # xs')"
  shows "thread_ok (store m) xs' (ths ! i)"
proof -
  from sh i have ok: "pc_ok (store m) xs (th_out (ths ! i)) (th_pc (ths ! i))"
    by (simp add: shape_def thread_ok_def)
  have dis: "owns (th_pc (ths ! i)) = None \<or> owns (th_pc (ths ! i)) \<noteq> owns (th_pc (ths ! t))"
    using sh t i by (simp add: shape_def)
  have "t = p \<Longrightarrow> \<not> in_pop_call (th_pc (ths ! i))"
    using sh i by (simp add: shape_def push_only_def)
  with xs' have "xs' = xs \<or> (xs' = x0 # xs \<and> owns (th_pc (ths ! t)) = Some (fst x0))
               \<or> (\<not> in_pop_call (th_pc (ths ! i)) \<and> xs = x0 # xs')" by blast
  with ok dis show ?thesis unfolding thread_ok_def by (rule pc_ok_others)
qed

lemma shape_others_upd:
  assumes sh: "shape p (m, ths) xs" and t: "t < length ths" and i: "i < length ths" "i \<noteq> t"
    and a: "owns (th_pc (ths ! t)) = Some a \<or> store m a = None"
    and xs': "xs' = xs \<or> (xs' = x0 # xs \<and> owns (th_pc (ths ! t)) = Some (fst x0))
               \<or> (t = p \<and> xs = x0 # xs')"
  shows "thread_ok ((store m)(a := x)) xs' (ths ! i)"
proof -
  from sh i have ok: "pc_ok (store m) xs (th_out (ths ! i)) (th_pc (ths ! i))"
    by (simp add: shape_def thread_ok_def)
  have dis: "owns (th_pc (ths ! i)) = None \<or> owns (th_pc (ths ! i)) \<noteq> owns (th_pc (ths ! t))"
    using sh t i by (simp add: shape_def)
  have "owns (th_pc (ths ! i)) \<noteq> Some a"
    using a dis pc_ok_owns [OF ok, of a] by auto
  moreover have "thread_ok (store m) xs' (ths ! i)"
    using sh t i xs' by (rule shape_others_same)
  ultimately show ?thesis by (simp add: thread_ok_def pc_ok_store_upd)
qed

lemma shape_dis:
  assumes "shape p (m, ths) xs" "t < length ths" "i < length ths" "i \<noteq> t"
  shows "owns (th_pc (ths ! t)) = None \<or> owns (th_pc (ths ! t)) \<noteq> owns (th_pc (ths ! i))"
  using assms by (simp add: shape_def)

lemma shape_others_owned:
  assumes "shape p (m, ths) xs" "i < length ths" "owns (th_pc (ths ! i)) = Some a"
  shows "store m a \<noteq> None \<and> a \<notin> fst ` set xs"
proof -
  from assms(1,2) have "pc_ok (store m) xs (th_out (ths ! i)) (th_pc (ths ! i))"
    by (simp add: shape_def thread_ok_def)
  then show ?thesis using assms(3) by (rule pc_ok_owns)
qed

lemma chain_not_free: "chain h p xs \<Longrightarrow> h a = None \<Longrightarrow> a \<notin> fst ` set xs"
  using chain_live [of h p xs a] by force

lemma push_shape:
  assumes sh: "shape p (m, ths) xs" and t: "t < length ths"
    and ok: "pc_ok (store m) xs ov (T_push v pp)"
    and own: "owns (T_push v pp) = owns (th_pc (ths ! t))"
    and st: "in_push v pp c m th0 = (m', th')"
    and po: "t \<noteq> p \<Longrightarrow> Pop \<notin> set (th_todo th0)"
  shows "shape p (m', ths[t := th']) (lin (T_push v pp) (th_pc th') xs)"
proof -
  from sh have ch: "chain (store m) (head m) xs" by (simp add: shape_def)
  note upd = shape_update [OF sh t]
  note same = shape_others_same [OF sh t]
  note oupd = shape_others_upd [OF sh t]
  note dis = shape_dis [OF sh t]
  show ?thesis
  proof (cases pp)
    case PU_new
    show ?thesis
    proof (cases "store m (snd c)")
      case (Some x)
      with PU_new st have m': "m' = m" and th': "th' = th0\<lparr>th_pc := T_push v PU_new\<rparr>"
        by (auto simp: in_push_def push_step_def)
      have "shape p (m', ths[t := th']) xs"
      proof (rule upd)
        show "chain (store m') (head m') xs" using ch m' by simp
        show "thread_ok (store m') xs th'" using th' by (simp add: thread_ok_def)
        show "thread_ok (store m') xs (ths ! i)" if "i < length ths" "i \<noteq> t" for i
          using same [OF that, of xs] m' by simp
        show "owns (th_pc th') = None \<or> owns (th_pc th') \<noteq> owns (th_pc (ths ! i))" for i
          using th' by simp
        show "push_only th'" if "t \<noteq> p" using po [OF that] th' by (simp add: push_only_def)
      qed
      with PU_new th' show ?thesis by simp
    next
      case None
      let ?a = "snd c"
      from None PU_new st have m': "m' = m\<lparr>store := (store m)(?a \<mapsto> Node v None)\<rparr>"
        and th': "th' = th0\<lparr>th_pc := T_push v (PU_load ?a)\<rparr>"
        by (auto simp: in_push_def push_step_def)
      have fresh: "?a \<notin> fst ` set xs" using ch None by (rule chain_not_free)
      have "shape p (m', ths[t := th']) xs"
      proof (rule upd)
        show "chain (store m') (head m') xs" using ch m' fresh by (simp add: chain_frame)
        show "thread_ok (store m') xs th'" using th' m' fresh by (simp add: thread_ok_def)
        show "thread_ok (store m') xs (ths ! i)" if "i < length ths" "i \<noteq> t" for i
          using oupd [OF that, of ?a xs _ "Some (Node v None)"] m' None by simp
        show "owns (th_pc th') = None \<or> owns (th_pc th') \<noteq> owns (th_pc (ths ! i))"
          if "i < length ths" "i \<noteq> t" for i
          using shape_others_owned [OF sh that(1), of ?a] None th' by auto
        show "push_only th'" if "t \<noteq> p" using po [OF that] th' by (simp add: push_only_def)
      qed
      with PU_new th' show ?thesis by simp
    qed
  next
    case (PU_load a)
    with st have m': "m' = m" and th': "th' = th0\<lparr>th_pc := T_push v (PU_link a (head m))\<rparr>"
      by (auto simp: in_push_def push_step_def)
    have "shape p (m', ths[t := th']) xs"
    proof (rule upd)
      show "chain (store m') (head m') xs" using ch m' by simp
      show "thread_ok (store m') xs th'" using th' m' ok PU_load by (simp add: thread_ok_def)
      show "thread_ok (store m') xs (ths ! i)" if "i < length ths" "i \<noteq> t" for i
        using same [OF that, of xs] m' by simp
      show "owns (th_pc th') = None \<or> owns (th_pc th') \<noteq> owns (th_pc (ths ! i))"
        if "i < length ths" "i \<noteq> t" for i
        using dis [OF that] own th' PU_load by auto
      show "push_only th'" if "t \<noteq> p" using po [OF that] th' by (simp add: push_only_def)
    qed
    with PU_load th' show ?thesis by simp
  next
    case (PU_link a old)
    with ok obtain nx where sa: "store m a = Some (Node v nx)" and fresh: "a \<notin> fst ` set xs"
      by auto
    with PU_link st have m': "m' = m\<lparr>store := (store m)(a \<mapsto> Node v old)\<rparr>"
      and th': "th' = th0\<lparr>th_pc := T_push v (PU_cas a old)\<rparr>"
      by (auto simp: in_push_def push_step_def)
    have "shape p (m', ths[t := th']) xs"
    proof (rule upd)
      show "chain (store m') (head m') xs" using ch m' fresh by (simp add: chain_frame)
      show "thread_ok (store m') xs th'" using th' m' fresh by (simp add: thread_ok_def)
      show "thread_ok (store m') xs (ths ! i)" if "i < length ths" "i \<noteq> t" for i
        using oupd [OF that, of a xs _ "Some (Node v old)"] m' own PU_link by simp
      show "owns (th_pc th') = None \<or> owns (th_pc th') \<noteq> owns (th_pc (ths ! i))"
        if "i < length ths" "i \<noteq> t" for i
        using dis [OF that] own th' PU_link by auto
      show "push_only th'" if "t \<noteq> p" using po [OF that] th' by (simp add: push_only_def)
    qed
    with PU_link th' show ?thesis by simp
  next
    case (PU_cas a old)
    with ok have sa: "store m a = Some (Node v old)" and fresh: "a \<notin> fst ` set xs"
      by auto
    show ?thesis
    proof (cases "head m = old \<and> \<not> fst c")
      case True
      with PU_cas st have m': "m' = m\<lparr>head := Some a\<rparr>"
        and th': "th' = th0\<lparr>th_pc := T_idle, th_rets := th_rets th0 @ [Ret_push]\<rparr>"
        by (auto simp: in_push_def push_step_def compare_exchange_weak_def)
      have "shape p (m', ths[t := th']) ((a, Node v old) # xs)"
      proof (rule upd)
        show "chain (store m') (head m') ((a, Node v old) # xs)" using ch m' sa True by simp
        show "thread_ok (store m') ((a, Node v old) # xs) th'" using th' by (simp add: thread_ok_def)
        show "thread_ok (store m') ((a, Node v old) # xs) (ths ! i)" if "i < length ths" "i \<noteq> t" for i
          using same [OF that, of "(a, Node v old) # xs" "(a, Node v old)"] m' own PU_cas by simp
        show "owns (th_pc th') = None \<or> owns (th_pc th') \<noteq> owns (th_pc (ths ! i))" for i
          using th' by simp
        show "push_only th'" if "t \<noteq> p" using po [OF that] th' by (simp add: push_only_def)
      qed
      with PU_cas th' show ?thesis by simp
    next
      case False
      with PU_cas st have m': "m' = m"
        and th': "th' = th0\<lparr>th_pc := T_push v (PU_link a (head m))\<rparr>"
        by (auto simp: in_push_def push_step_def compare_exchange_weak_def)
      have "shape p (m', ths[t := th']) xs"
      proof (rule upd)
        show "chain (store m') (head m') xs" using ch m' by simp
        show "thread_ok (store m') xs th'" using th' m' sa fresh by (simp add: thread_ok_def)
        show "thread_ok (store m') xs (ths ! i)" if "i < length ths" "i \<noteq> t" for i
          using same [OF that, of xs] m' by simp
        show "owns (th_pc th') = None \<or> owns (th_pc th') \<noteq> owns (th_pc (ths ! i))"
          if "i < length ths" "i \<noteq> t" for i
          using dis [OF that] own th' PU_cas by auto
        show "push_only th'" if "t \<noteq> p" using po [OF that] th' by (simp add: push_only_def)
      qed
      with PU_cas th' show ?thesis by simp
    qed
  next
    case PU_ret
    with ok show ?thesis by simp
  next
    case PU_fault
    with ok show ?thesis by simp
  qed
qed


lemma pop_shape:
  assumes sh: "shape p (m, ths) xs" and t: "t < length ths" and tp: "t = p"
    and ok: "pc_ok (store m) xs (th_out th0) (T_pop pp)"
    and own: "owns (T_pop pp) = owns (th_pc (ths ! t))"
    and st: "in_pop pp c m th0 = (m', th')"
  shows "shape p (m', ths[t := th']) (lin (T_pop pp) (th_pc th') xs)"
proof -
  from sh have ch: "chain (store m) (head m) xs" by (simp add: shape_def)
  note upd = shape_update [OF sh t]
  note same = shape_others_same [OF sh t]
  note oupd = shape_others_upd [OF sh t]
  note dis = shape_dis [OF sh t]
  have to_test: "shape p (m, ths[t := th0\<lparr>th_pc := T_pop (PO_test (head m)), th_out := th_out th0\<rparr>]) xs"
    if "owns (th_pc (ths ! t)) = None"
  proof (rule upd)
    show "chain (store m) (head m) xs" by (rule ch)
    show "thread_ok (store m) xs (th0\<lparr>th_pc := T_pop (PO_test (head m)), th_out := th_out th0\<rparr>)"
    proof (cases "head m")
      case None
      then show ?thesis by (simp add: thread_ok_def)
    next
      case (Some a)
      with ch chain_head [of "store m" a xs] show ?thesis by (auto simp: thread_ok_def)
    qed
    show "thread_ok (store m) xs (ths ! i)" if "i < length ths" "i \<noteq> t" for i
      using same [OF that, of xs] by simp
    show "owns (th_pc (th0\<lparr>th_pc := T_pop (PO_test (head m)), th_out := th_out th0\<rparr>)) = None
      \<or> owns (th_pc (th0\<lparr>th_pc := T_pop (PO_test (head m)), th_out := th_out th0\<rparr>)) \<noteq> owns (th_pc (ths ! i))" for i
      by simp
    show "push_only (th0\<lparr>th_pc := T_pop (PO_test (head m)), th_out := th_out th0\<rparr>)" if "t \<noteq> p"
      using that tp by simp
  qed
  show ?thesis
  proof (cases pp)
    case PO_load
    with st have m': "m' = m"
      and th': "th' = th0\<lparr>th_pc := T_pop (PO_test (head m)), th_out := th_out th0\<rparr>"
      by (auto simp: in_pop_def pop_step_def)
    from to_test own PO_load m' th' show ?thesis by simp
  next
    case (PO_test old)
    show ?thesis
    proof (cases old)
      case None
      with PO_test st have m': "m' = m"
        and th': "th' = th0\<lparr>th_pc := T_idle, th_out := th_out th0,
                     th_rets := th_rets th0 @ [Ret_pop False (th_out th0)]\<rparr>"
        by (auto simp: in_pop_def pop_step_def)
      have "shape p (m', ths[t := th']) xs"
      proof (rule upd)
        show "chain (store m') (head m') xs" using ch m' by simp
        show "thread_ok (store m') xs th'" using th' by (simp add: thread_ok_def)
        show "thread_ok (store m') xs (ths ! i)" if "i < length ths" "i \<noteq> t" for i
          using same [OF that, of xs] m' by simp
        show "owns (th_pc th') = None \<or> owns (th_pc th') \<noteq> owns (th_pc (ths ! i))" for i
          using th' by simp
        show "push_only th'" if "t \<noteq> p" using that tp by simp
      qed
      with PO_test None th' show ?thesis by simp
    next
      case (Some a)
      with ok PO_test obtain nd where nd: "(a, nd) \<in> set xs" by auto
      with ch have sa: "store m a = Some nd" by (rule chain_live)
      with PO_test Some st have m': "m' = m"
        and th': "th' = th0\<lparr>th_pc := T_pop (PO_cas a (nxt nd)), th_out := th_out th0\<rparr>"
        by (auto simp: in_pop_def pop_step_def)
      have "shape p (m', ths[t := th']) xs"
      proof (rule upd)
        show "chain (store m') (head m') xs" using ch m' by simp
        show "thread_ok (store m') xs th'" using th' nd unfolding thread_ok_def by (cases nd) auto
        show "thread_ok (store m') xs (ths ! i)" if "i < length ths" "i \<noteq> t" for i
          using same [OF that, of xs] m' by simp
        show "owns (th_pc th') = None \<or> owns (th_pc th') \<noteq> owns (th_pc (ths ! i))" for i
          using th' by simp
        show "push_only th'" if "t \<noteq> p" using that tp by simp
      qed
      with PO_test Some th' show ?thesis by simp
    qed
  next
    case (PO_cas a nx)
    with ok obtain v where v: "(a, Node v nx) \<in> set xs" by auto
    with ch have sa: "store m a = Some (Node v nx)" by (rule chain_live)
    show ?thesis
    proof (cases "head m = Some a \<and> \<not> fst c")
      case True
      with PO_cas st have m': "m' = m\<lparr>head := nx\<rparr>"
        and th': "th' = th0\<lparr>th_pc := T_pop (PO_read a), th_out := th_out th0\<rparr>"
        by (auto simp: in_pop_def pop_step_def compare_exchange_weak_def)
      from True ch chain_head [of "store m" a xs] sa obtain ys
        where xs: "xs = (a, Node v nx) # ys" and ys: "chain (store m) nx ys" by auto
      from chain_distinct [OF ch] xs have fresh: "a \<notin> fst ` set ys" by simp
      have "shape p (m', ths[t := th']) ys"
      proof (rule upd)
        show "chain (store m') (head m') ys" using ys m' by simp
        show "thread_ok (store m') ys th'" using th' m' sa fresh by (simp add: thread_ok_def)
        show "thread_ok (store m') ys (ths ! i)" if "i < length ths" "i \<noteq> t" for i
          using same [OF that, of ys "(a, Node v nx)"] m' tp xs by simp
        show "owns (th_pc th') = None \<or> owns (th_pc th') \<noteq> owns (th_pc (ths ! i))"
          if "i < length ths" "i \<noteq> t" for i
          using shape_others_owned [OF sh that(1), of a] th' xs by auto
        show "push_only th'" if "t \<noteq> p" using that tp by simp
      qed
      with PO_cas th' xs show ?thesis by simp
    next
      case False
      with PO_cas st have m': "m' = m"
        and th': "th' = th0\<lparr>th_pc := T_pop (PO_test (head m)), th_out := th_out th0\<rparr>"
        by (auto simp: in_pop_def pop_step_def compare_exchange_weak_def)
      from to_test own PO_cas m' th' show ?thesis by simp
    qed
  next
    case (PO_read a)
    with ok obtain x where sa: "store m a = Some x" and fresh: "a \<notin> fst ` set xs" by auto
    with PO_read st have m': "m' = m"
      and th': "th' = th0\<lparr>th_pc := T_pop (PO_del a), th_out := val x\<rparr>"
      by (auto simp: in_pop_def pop_step_def)
    have "shape p (m', ths[t := th']) xs"
    proof (rule upd)
      show "chain (store m') (head m') xs" using ch m' by simp
      show "thread_ok (store m') xs th'" using th' m' fresh sa unfolding thread_ok_def by (cases x) auto
      show "thread_ok (store m') xs (ths ! i)" if "i < length ths" "i \<noteq> t" for i
        using same [OF that, of xs] m' by simp
      show "owns (th_pc th') = None \<or> owns (th_pc th') \<noteq> owns (th_pc (ths ! i))"
        if "i < length ths" "i \<noteq> t" for i
        using dis [OF that] own th' PO_read by auto
      show "push_only th'" if "t \<noteq> p" using that tp by simp
    qed
    with PO_read th' show ?thesis by simp
  next
    case (PO_del a)
    with ok obtain nx where sa: "store m a = Some (Node (th_out th0) nx)"
      and fresh: "a \<notin> fst ` set xs" by auto
    with PO_del st have m': "m' = m\<lparr>store := (store m)(a := None)\<rparr>"
      and th': "th' = th0\<lparr>th_pc := T_idle, th_out := th_out th0,
                     th_rets := th_rets th0 @ [Ret_pop True (th_out th0)]\<rparr>"
      by (auto simp: in_pop_def pop_step_def)
    have "shape p (m', ths[t := th']) xs"
    proof (rule upd)
      show "chain (store m') (head m') xs" using ch m' fresh by (simp add: chain_frame)
      show "thread_ok (store m') xs th'" using th' by (simp add: thread_ok_def)
      show "thread_ok (store m') xs (ths ! i)" if "i < length ths" "i \<noteq> t" for i
        using oupd [OF that, of a xs _ None] m' own PO_del by simp
      show "owns (th_pc th') = None \<or> owns (th_pc th') \<noteq> owns (th_pc (ths ! i))" for i
        using th' by simp
      show "push_only th'" if "t \<noteq> p" using that tp by simp
    qed
    with PO_del th' show ?thesis by simp
  next
    case (PO_ret b)
    with ok show ?thesis by simp
  next
    case PO_fault
    with ok show ?thesis by simp
  qed
qed

lemma shape_step:
  assumes sh: "shape p (m, ths) xs" and t: "t < length ths"
    and st: "stack_thread_step c m (ths ! t) = (m', th')"
  shows "shape p (m', ths[t := th']) (lin (th_pc (ths ! t)) (th_pc th') xs)"
proof -
  from sh t have ok: "pc_ok (store m) xs (th_out (ths ! t)) (th_pc (ths ! t))"
    by (simp add: shape_def thread_ok_def)
  have po: "push_only (ths ! t)" if "t \<noteq> p" using sh t that by (simp add: shape_def)
  show ?thesis
  proof (cases "th_pc (ths ! t)")
    case T_idle
    show ?thesis
    proof (cases "th_todo (ths ! t)")
      case Nil
      with T_idle st have "m' = m" "th' = ths ! t" by (simp_all add: stack_thread_step_def)
      with sh T_idle show ?thesis by simp
    next
      case (Cons o1 ops)
      show ?thesis
      proof (cases o1)
        case (Push v)
        with T_idle Cons st have st': "in_push v PU_new c m ((ths ! t)\<lparr>th_todo := ops\<rparr>) = (m', th')"
          by (simp add: stack_thread_step_def)
        have "shape p (m', ths[t := th']) (lin (T_push v PU_new) (th_pc th') xs)"
          using sh t _ _ st'
        proof (rule push_shape)
          show "pc_ok (store m) xs 0 (T_push v PU_new)" by simp
          show "owns (T_push v PU_new) = owns (th_pc (ths ! t))" using T_idle by simp
          show "Pop \<notin> set (th_todo ((ths ! t)\<lparr>th_todo := ops\<rparr>))" if "t \<noteq> p"
            using po [OF that] Cons by (simp add: push_only_def)
        qed
        with T_idle show ?thesis by simp
      next
        case Pop
        with T_idle Cons st have st': "in_pop PO_load c m ((ths ! t)\<lparr>th_todo := ops\<rparr>) = (m', th')"
          by (simp add: stack_thread_step_def)
        have tp: "t = p" using po Cons Pop by (auto simp: push_only_def)
        have "shape p (m', ths[t := th']) (lin (T_pop PO_load) (th_pc th') xs)"
          using sh t tp _ _ st'
        proof (rule pop_shape)
          show "pc_ok (store m) xs (th_out ((ths ! t)\<lparr>th_todo := ops\<rparr>)) (T_pop PO_load)" by simp
          show "owns (T_pop PO_load) = owns (th_pc (ths ! t))" using T_idle by simp
        qed
        with T_idle show ?thesis by simp
      qed
    qed
  next
    case (T_push v pp)
    with st have st': "in_push v pp c m (ths ! t) = (m', th')"
      by (simp add: stack_thread_step_def)
    have "shape p (m', ths[t := th']) (lin (T_push v pp) (th_pc th') xs)"
      using sh t _ _ st'
    proof (rule push_shape)
      show "pc_ok (store m) xs (th_out (ths ! t)) (T_push v pp)" using ok T_push by simp
      show "owns (T_push v pp) = owns (th_pc (ths ! t))" using T_push by simp
      show "Pop \<notin> set (th_todo (ths ! t))" if "t \<noteq> p"
        using po [OF that] by (simp add: push_only_def)
    qed
    with T_push show ?thesis by simp
  next
    case (T_pop pp)
    with st have st': "in_pop pp c m (ths ! t) = (m', th')"
      by (simp add: stack_thread_step_def)
    have tp: "t = p" using po T_pop by (auto simp: push_only_def)
    have "shape p (m', ths[t := th']) (lin (T_pop pp) (th_pc th') xs)"
      using sh t tp _ _ st'
    proof (rule pop_shape)
      show "pc_ok (store m) xs (th_out (ths ! t)) (T_pop pp)" using ok T_pop by simp
      show "owns (T_pop pp) = owns (th_pc (ths ! t))" using T_pop by simp
    qed
    with T_pop show ?thesis by simp
  qed
qed


subsection \<open>Accounting\<close>


lemma pc_acct_store_upd:
  "owns pc \<noteq> Some a \<Longrightarrow> pc_acct (h(a := x)) ov pc = pc_acct h ov pc"
  by (induction h ov pc rule: pc_acct.induct) auto










lemma stack_inv_init:
  assumes "single_popper p progs"
  shows "stack_inv p progs (stack_init progs)"
proof -
  have "shape p (stack_init progs) []"
    using assms
    by (auto simp: shape_def stack_init_def stack_thread_def thread_ok_def push_only_def single_popper_def)
  moreover have "sum_list (map (th_acct Map.empty) (map stack_thread progs)) = mset (concat (map pushed progs))"
    by (induction progs) (simp_all add: th_acct_def stack_thread_def)
  then have "total (stack_init progs) [] = mset (concat (map pushed progs))"
    by (simp add: total_def stack_init_def)
  ultimately show ?thesis unfolding stack_inv_def by blast
qed





lemmas stack_simps =
  sched_step_def stack_thread_step_def in_push_def in_pop_def push_step_def pop_step_def
  compare_exchange_weak_def stack_init_def stack_thread_def







text \<open>
  Two overlapping \<open>pop\<close>s go wrong even when no address is reused: thread 0 reads
  \<open>head\<close>, thread 1 pops and deletes that node, and thread 0 then reads
  \<^verbatim>\<open>old_head->next\<close> from the deleted node.
\<close>

lemma two_poppers_fault:
  "map th_pc (snd (run stack_thread_step
      [(2, False, 2), (2, False, 0), (2, False, 0), (2, False, 0),
       (0, False, 0),
       (1, False, 0), (1, False, 0), (1, False, 0), (1, False, 0), (1, False, 0),
       (0, False, 0)]
      (stack_init [[Pop], [Pop], [Push 0]])))
    = [T_pop PO_fault, T_idle, T_idle]"
  by (simp add: stack_simps)

section \<open>06: last in, first out\<close>

lemma chain_None: "chain h None xs \<Longrightarrow> xs = []"
  by (cases xs) simp_all

lemma push_ord:
  assumes ok: "pc_ok (store m) xs ov (T_push v pp)"
    and st: "in_push v pp c m th0 = (m', th')"
  shows "th_pending (store m') (lin (T_push v pp) (th_pc th') xs) th'
       = th_rets th0 @ lifo_spec (Push v # th_todo th0) (map (\<lambda>x. val (snd x)) xs) (th_out th0)
     \<and> th_pc th' \<noteq> T_pop (PO_test None)"
  using assms
  by (cases pp)
    (auto simp: in_push_def push_step_def compare_exchange_weak_def th_pending_def
      split: option.splits if_splits)

lemma pop_ord:
  assumes ok: "pc_ok (store m) xs (th_out th0) (T_pop pp)"
    and ch: "chain (store m) (head m) xs"
    and emp: "pp = PO_test None \<Longrightarrow> xs = []"
    and st: "in_pop pp c m th0 = (m', th')"
  shows "th_pending (store m') (lin (T_pop pp) (th_pc th') xs) th'
       = th_rets th0 @ pending (store m) (map (\<lambda>x. val (snd x)) xs) (th_todo th0) (th_out th0) (T_pop pp)
     \<and> (th_pc th' = T_pop (PO_test None) \<longrightarrow> lin (T_pop pp) (th_pc th') xs = [])"
proof (cases pp)
  case PO_load
  with st ch show ?thesis
    by (auto simp: in_pop_def pop_step_def th_pending_def dest: chain_None)
next
  case (PO_test old)
  with st ok emp show ?thesis
    by (cases old) (auto simp: in_pop_def pop_step_def th_pending_def split: option.splits)
next
  case (PO_cas a nx)
  with ok obtain v where v: "(a, Node v nx) \<in> set xs" by auto
  with ch have sa: "store m a = Some (Node v nx)" by (rule chain_live)
  show ?thesis
  proof (cases "head m = Some a \<and> \<not> fst c")
    case True
    with ch chain_head [of "store m" a xs] sa obtain ys
      where xs: "xs = (a, Node v nx) # ys" by auto
    with True PO_cas st sa show ?thesis
      by (auto simp: in_pop_def pop_step_def compare_exchange_weak_def th_pending_def)
  next
    case False
    with PO_cas st ch show ?thesis
      by (auto simp: in_pop_def pop_step_def compare_exchange_weak_def th_pending_def dest: chain_None)
  qed
next
  case (PO_read a)
  with st ok show ?thesis
    by (auto simp: in_pop_def pop_step_def th_pending_def split: option.splits)
next
  case (PO_del a)
  with st ok show ?thesis
    by (auto simp: in_pop_def pop_step_def th_pending_def split: option.splits)
next
  case (PO_ret b)
  with ok show ?thesis by simp
next
  case PO_fault
  with ok show ?thesis by simp
qed

lemma thread_ord_step:
  assumes sh: "shape p (m, ths) xs" and t: "t < length ths"
    and emp: "th_pc (ths ! t) = T_pop (PO_test None) \<Longrightarrow> xs = []"
    and st: "stack_thread_step c m (ths ! t) = (m', th')"
  shows "th_pending (store m') (lin (th_pc (ths ! t)) (th_pc th') xs) th' = th_pending (store m) xs (ths ! t)
     \<and> (th_pc th' = T_pop (PO_test None) \<longrightarrow> lin (th_pc (ths ! t)) (th_pc th') xs = [])"
proof -
  from sh t have ok: "pc_ok (store m) xs (th_out (ths ! t)) (th_pc (ths ! t))"
    by (simp add: shape_def thread_ok_def)
  from sh have ch: "chain (store m) (head m) xs" by (simp add: shape_def)
  show ?thesis
  proof (cases "th_pc (ths ! t)")
    case T_idle
    show ?thesis
    proof (cases "th_todo (ths ! t)")
      case Nil
      with T_idle st have "m' = m" "th' = ths ! t" by (simp_all add: stack_thread_step_def)
      with T_idle show ?thesis by simp
    next
      case (Cons o1 ops)
      show ?thesis
      proof (cases o1)
        case (Push v)
        with T_idle Cons st have st': "in_push v PU_new c m ((ths ! t)\<lparr>th_todo := ops\<rparr>) = (m', th')"
          by (simp add: stack_thread_step_def)
        have "pc_ok (store m) xs 0 (T_push v PU_new)" by simp
        from push_ord [OF this st'] T_idle Cons Push show ?thesis
          by (simp add: th_pending_def)
      next
        case Pop
        with T_idle Cons st have st': "in_pop PO_load c m ((ths ! t)\<lparr>th_todo := ops\<rparr>) = (m', th')"
          by (simp add: stack_thread_step_def)
        have "pc_ok (store m) xs (th_out ((ths ! t)\<lparr>th_todo := ops\<rparr>)) (T_pop PO_load)" by simp
        from pop_ord [OF this ch _ st'] T_idle Cons Pop show ?thesis
          by (simp add: th_pending_def)
      qed
    qed
  next
    case (T_push v pp)
    with st have st': "in_push v pp c m (ths ! t) = (m', th')"
      by (simp add: stack_thread_step_def)
    from ok T_push have "pc_ok (store m) xs (th_out (ths ! t)) (T_push v pp)" by simp
    from push_ord [OF this st'] T_push show ?thesis by (simp add: th_pending_def)
  next
    case (T_pop pp)
    with st have st': "in_pop pp c m (ths ! t) = (m', th')"
      by (simp add: stack_thread_step_def)
    from ok T_pop have "pc_ok (store m) xs (th_out (ths ! t)) (T_pop pp)" by simp
    from pop_ord [OF this ch _ st'] emp T_pop show ?thesis by (simp add: th_pending_def)
  qed
qed


lemma lifo_inv_init: "lifo_inv ops (stack_init [ops])"
proof -
  have "single_popper 0 [ops]" by (simp add: single_popper_def)
  then have "stack_inv 0 [ops] (stack_init [ops])" by (rule stack_inv_init)
  then have "shape 0 (stack_init [ops]) []"
    by (auto simp: stack_inv_def shape_def stack_init_def dest: chain_None)
  then have a: "shape 0 (stack_init [ops]) []" .
  show ?thesis unfolding lifo_inv_def
  proof (intro exI conjI)
    show "snd (stack_init [ops]) = [stack_thread ops]" by (simp add: stack_init_def)
    show "shape 0 (stack_init [ops]) []" by (rule a)
    show "th_pending (store (fst (stack_init [ops]))) [] (stack_thread ops) = lifo_spec ops [] 0"
      by (simp add: th_pending_def stack_thread_def)
    show "th_pc (stack_thread ops) = T_pop (PO_test None) \<longrightarrow> [] = ([] :: (addr \<times> node) list)"
      by simp
  qed
qed

lemma lifo_inv_step:
  assumes "lifo_inv ops s"
  shows "lifo_inv ops (sched_step stack_thread_step s e)"
proof (cases "fst e < length (snd s)")
  case False
  with assms show ?thesis by (simp add: sched_step_eq)
next
  case True
  obtain m ths where s: "s = (m, ths)" by (cases s)
  from assms s obtain xs th where ths: "ths = [th]" and sh: "shape 0 (m, ths) xs"
    and ord: "th_pending (store m) xs th = lifo_spec ops [] 0"
    and emp: "th_pc th = T_pop (PO_test None) \<longrightarrow> xs = []"
    by (auto simp: lifo_inv_def)
  from True s ths have e0: "fst e = 0" by simp
  obtain m' th' where st: "stack_thread_step (snd e) m (ths ! 0) = (m', th')"
    by (cases "stack_thread_step (snd e) m (ths ! 0)")
  have t: "0 < length ths" using ths by simp
  have eq: "sched_step stack_thread_step s e = (m', [th'])"
    using s st ths e0 by (simp add: sched_step_eq)
  have emp': "th_pc (ths ! 0) = T_pop (PO_test None) \<Longrightarrow> xs = []" using emp ths by simp
  from shape_step [OF sh t st] thread_ord_step [OF sh t emp' st] ord ths eq
  show ?thesis unfolding lifo_inv_def by auto
qed

lemma lifo_inv_run: "lifo_inv ops (run stack_thread_step sch (stack_init [ops]))"
  by (rule run_invariant) (simp_all add: lifo_inv_init lifo_inv_step)

lemma sequential_results:
  assumes "finished (run stack_thread_step sch (stack_init [ops]))"
  shows "map th_rets (snd (run stack_thread_step sch (stack_init [ops]))) = [lifo_spec ops [] 0]"
proof -
  from lifo_inv_run [of ops sch] obtain xs th
    where "snd (run stack_thread_step sch (stack_init [ops])) = [th]"
      and "th_pending (store (fst (run stack_thread_step sch (stack_init [ops])))) xs th = lifo_spec ops [] 0"
    by (auto simp: lifo_inv_def)
  with assms show ?thesis by (simp add: finished_def th_pending_def)
qed

lemma lifo_spec_pushes:
  "lifo_spec (map Push vs @ ops) st ov = replicate (length vs) Ret_push @ lifo_spec ops (rev vs @ st) ov"
  by (induction vs arbitrary: st) simp_all

lemma lifo_spec_pops:
  "lifo_spec (replicate k Pop) st ov =
     map (Ret_pop True) (take k st)
     @ replicate (k - length st) (Ret_pop False (if st = [] then ov else last st))"
proof (induction k arbitrary: st ov)
  case 0
  then show ?case by simp
next
  case (Suc k)
  then show ?case by (cases st) simp_all
qed

lemma shape_ex_step:
  assumes "\<exists>xs. shape p s xs"
  shows "\<exists>xs. shape p (sched_step stack_thread_step s e) xs"
proof (cases "fst e < length (snd s)")
  case False
  with assms show ?thesis by (simp add: sched_step_eq)
next
  case True
  obtain m ths where s: "s = (m, ths)" by (cases s)
  obtain m' th' where st: "stack_thread_step (snd e) m (ths ! fst e) = (m', th')"
    by (cases "stack_thread_step (snd e) m (ths ! fst e)")
  from assms s obtain xs where sh: "shape p (m, ths) xs" by blast
  from True s have t: "fst e < length ths" by simp
  have eq: "sched_step stack_thread_step s e = (m', ths[fst e := th'])"
    using True s st by (simp add: sched_step_eq)
  from shape_step [OF sh t st] eq show ?thesis by auto
qed

lemma step_dom:
  assumes "stack_thread_step c m th = (m', th')"
  shows "dom (store m') \<subseteq> insert (snd c) (dom (store m))"
proof -
  have pu: "dom (store (fst (push_step v c m pp))) \<subseteq> insert (snd c) (dom (store m))" for v pp
    by (cases pp) (auto simp: push_step_def compare_exchange_weak_def split: option.splits if_splits)
  have po: "dom (store (fst (pop_step c m (pp, ov)))) \<subseteq> insert (snd c) (dom (store m))" for pp ov
    by (cases pp) (auto simp: pop_step_def compare_exchange_weak_def split: option.splits if_splits)
  have ip: "fst (in_push v pp c m th0) = fst (push_step v c m pp)" for v pp th0
    by (simp add: in_push_def split: prod.splits)
  have iq: "fst (in_pop pp c m th0) = fst (pop_step c m (pp, th_out th0))" for pp th0
    by (simp add: in_pop_def split: prod.splits pop_pc.splits)
  have "m' = fst (stack_thread_step c m th)" using assms by simp
  then show ?thesis
    using pu po
    by (auto simp: stack_thread_step_def ip iq split: call_pc.splits list.splits stack_op.splits)
qed

lemma finite_dom_step:
  assumes "finite (dom (store (fst s)))"
  shows "finite (dom (store (fst (sched_step stack_thread_step s e))))"
proof (cases "fst e < length (snd s)")
  case False
  with assms show ?thesis by (simp add: sched_step_eq)
next
  case True
  have "dom (store (fst (stack_thread_step (snd e) (fst s) (snd s ! fst e))))
      \<subseteq> insert (snd (snd e)) (dom (store (fst s)))"
    by (rule step_dom) (rule surjective_pairing)
  with assms True show ?thesis
    by (auto simp: sched_step_eq intro: finite_subset)
qed

lemma ready_state_run: "ready_state s \<Longrightarrow> ready_state (run stack_thread_step sch s)"
  unfolding ready_state_def
  by (rule run_invariant) (auto intro: shape_ex_step finite_dom_step)

lemma one_call_returns:
  assumes rs: "ready_state (m, [th])" and idle: "th_pc th = T_idle" and todo: "th_todo th = o1 # ops"
  shows "\<exists>sch m' th'. run stack_thread_step sch (m, [th]) = (m', [th'])
           \<and> th_pc th' = T_idle \<and> th_todo th' = ops"
proof (cases o1)
  case (Push v)
  from rs have "finite (dom (store m))" by (simp add: ready_state_def)
  then obtain a where "a \<notin> dom (store m)" using ex_new_if_finite [of "dom (store m)"] by auto
  then have a: "store m a = None" by auto
  let ?sch = "[(0, False, a), (0, False, a), (0, False, a), (0, False, a)] :: (nat \<times> choice) list"
  have "run stack_thread_step ?sch (m, [th])
      = (m\<lparr>store := (store m)(a \<mapsto> Node v (head m)), head := Some a\<rparr>,
         [th\<lparr>th_todo := ops, th_pc := T_idle, th_rets := th_rets th @ [Ret_push]\<rparr>])"
    using a idle todo Push
    by (simp add: sched_step_def stack_thread_step_def in_push_def push_step_def
        compare_exchange_weak_def)
  then show ?thesis by (intro exI [of _ ?sch]) simp
next
  case Pop
  show ?thesis
  proof (cases "head m")
    case None
    let ?sch = "[(0, False, 0), (0, False, 0)] :: (nat \<times> choice) list"
    have "run stack_thread_step ?sch (m, [th])
      = (m, [th\<lparr>th_todo := ops, th_pc := T_idle,
                th_rets := th_rets th @ [Ret_pop False (th_out th)]\<rparr>])"
      using None idle todo Pop
      by (simp add: sched_step_def stack_thread_step_def in_pop_def pop_step_def)
    then show ?thesis by (intro exI [of _ ?sch]) simp
  next
    case (Some a)
    from rs obtain xs where "chain (store m) (head m) xs" by (auto simp: ready_state_def shape_def)
    with Some chain_head [of "store m" a xs] obtain nd where nd: "store m a = Some nd" by auto
    let ?sch = "[(0, False, 0), (0, False, 0), (0, False, 0), (0, False, 0), (0, False, 0)]
        :: (nat \<times> choice) list"
    have "run stack_thread_step ?sch (m, [th])
      = (m\<lparr>head := nxt nd, store := (store m)(a := None)\<rparr>,
         [th\<lparr>th_todo := ops, th_pc := T_idle, th_out := val nd,
             th_rets := th_rets th @ [Ret_pop True (val nd)]\<rparr>])"
      using Some nd idle todo Pop
      by (simp add: sched_step_def stack_thread_step_def in_pop_def pop_step_def
          compare_exchange_weak_def)
    then show ?thesis by (intro exI [of _ ?sch]) simp
  qed
qed

lemma all_calls_return:
  assumes "ready_state (m, [th])" and "th_pc th = T_idle"
  shows "\<exists>sch. finished (run stack_thread_step sch (m, [th]))"
  using assms
proof (induction "th_todo th" arbitrary: m th)
  case Nil
  then have "finished (run stack_thread_step [] (m, [th]))" by (simp add: finished_def)
  then show ?case by blast
next
  case (Cons o1 ops)
  from one_call_returns [OF Cons.prems(1,2) Cons.hyps(2) [symmetric]]
  obtain sch m' th' where r: "run stack_thread_step sch (m, [th]) = (m', [th'])"
    and i: "th_pc th' = T_idle" and t: "th_todo th' = ops" by blast
  from ready_state_run [OF Cons.prems(1), of sch] r have "ready_state (m', [th'])" by simp
  from Cons.hyps(1) [OF t [symmetric] this i] obtain sch'
    where "finished (run stack_thread_step sch' (m', [th']))" by blast
  with r have "finished (run stack_thread_step (sch @ sch') (m, [th]))" by (simp add: run_append)
  then show ?case by blast
qed

lemma single_thread_terminates:
  "\<exists>sch. finished (run stack_thread_step sch (stack_init [ops]))"
proof -
  have "single_popper 0 [ops]" by (simp add: single_popper_def)
  then have "stack_inv 0 [ops] (stack_init [ops])" by (rule stack_inv_init)
  then have "ready_state (stack_init [ops])"
    by (auto simp: ready_state_def stack_inv_def stack_init_def)
  then show ?thesis
    using all_calls_return [of "fst (stack_init [ops])" "stack_thread ops"]
    by (simp add: stack_init_def stack_thread_def)
qed

text \<open>
  C2. One thread alone, pushing the values \<open>vs\<close> and then calling \<open>pop\<close> \<open>k\<close> times, under
  every schedule (any spurious failures of the weak compare-and-swap, any addresses
  from the allocator): the calls can all return, and when they have returned, the
  results are the pushes, then
  the values in reverse order of pushing as far as there are \<open>pop\<close>s, then, for \<open>pop\<close>s
  beyond the number of values, the empty result with the caller's variable unchanged.
\<close>

theorem stack_lifo:
  "(\<exists>sch'. finished (run stack_thread_step sch' (stack_init [map Push vs @ replicate k Pop])))
   \<and> (finished (run stack_thread_step sch (stack_init [map Push vs @ replicate k Pop])) \<longrightarrow>
     map th_rets (snd (run stack_thread_step sch (stack_init [map Push vs @ replicate k Pop])))
       = [replicate (length vs) Ret_push
          @ map (Ret_pop True) (take k (rev vs))
          @ replicate (k - length vs) (Ret_pop False (if vs = [] then 0 else hd vs))])"
proof (rule conjI [OF single_thread_terminates], rule impI)
  assume "finished (run stack_thread_step sch (stack_init [map Push vs @ replicate k Pop]))"
  then have "map th_rets (snd (run stack_thread_step sch (stack_init [map Push vs @ replicate k Pop])))
      = [lifo_spec (map Push vs @ replicate k Pop) [] 0]"
    by (rule sequential_results)
  also have "lifo_spec (map Push vs @ replicate k Pop) [] 0
      = replicate (length vs) Ret_push
          @ map (Ret_pop True) (take k (rev vs))
          @ replicate (k - length vs) (Ret_pop False (if vs = [] then 0 else hd vs))"
    by (simp add: lifo_spec_pushes lifo_spec_pops last_rev)
  finally show "map th_rets (snd (run stack_thread_step sch (stack_init [map Push vs @ replicate k Pop])))
       = [replicate (length vs) Ret_push
          @ map (Ret_pop True) (take k (rev vs))
          @ replicate (k - length vs) (Ret_pop False (if vs = [] then 0 else hd vs))]" .
qed

theorem stack_lifo_witness:
  "finished (run stack_thread_step
      [(0, False, 5), (0, False, 0), (0, False, 0), (0, True, 0), (0, False, 0), (0, False, 0),
       (0, False, 5), (0, False, 6), (0, False, 0), (0, False, 0), (0, False, 0),
       (0, False, 0), (0, False, 0), (0, True, 0), (0, False, 0), (0, False, 0), (0, False, 0),
       (0, False, 0), (0, False, 0), (0, False, 0), (0, False, 0), (0, False, 0), (0, False, 0),
       (0, False, 0), (0, False, 0)]
      (stack_init [map Push [10, 20] @ replicate 3 Pop]))
   \<and> map th_rets (snd (run stack_thread_step
      [(0, False, 5), (0, False, 0), (0, False, 0), (0, True, 0), (0, False, 0), (0, False, 0),
       (0, False, 5), (0, False, 6), (0, False, 0), (0, False, 0), (0, False, 0),
       (0, False, 0), (0, False, 0), (0, True, 0), (0, False, 0), (0, False, 0), (0, False, 0),
       (0, False, 0), (0, False, 0), (0, False, 0), (0, False, 0), (0, False, 0), (0, False, 0),
       (0, False, 0), (0, False, 0)]
      (stack_init [map Push [10, 20] @ replicate 3 Pop])))
     = [[Ret_push, Ret_push, Ret_pop True 20, Ret_pop True 10, Ret_pop False 10]]"
proof -
  let ?S = "[(0, False, 5), (0, False, 0), (0, False, 0), (0, True, 0), (0, False, 0), (0, False, 0),
       (0, False, 5), (0, False, 6), (0, False, 0), (0, False, 0), (0, False, 0),
       (0, False, 0), (0, False, 0), (0, True, 0), (0, False, 0), (0, False, 0), (0, False, 0),
       (0, False, 0), (0, False, 0), (0, False, 0), (0, False, 0), (0, False, 0), (0, False, 0),
       (0, False, 0), (0, False, 0)] :: (nat \<times> choice) list"
  have "snd (run stack_thread_step ?S (stack_init [map Push [10, 20] @ replicate 3 Pop]))
      = [\<lparr>th_todo = [], th_pc = T_idle, th_out = 10,
          th_rets = [Ret_push, Ret_push, Ret_pop True 20, Ret_pop True 10, Ret_pop False 10]\<rparr>]"
    by (simp add: stack_simps numeral_3_eq_3)
  then have f: "finished (run stack_thread_step ?S (stack_init [map Push [10, 20] @ replicate 3 Pop]))"
    by (simp add: finished_def)
  from f stack_lifo [where sch = ?S and vs = "[10, 20]" and k = 3] show ?thesis by (simp add: numeral_3_eq_3)
qed


section \<open>The retry loops re-observe; the results of pop\<close>

lemma bi_fresh_run:
  "bi_fresh (mon_run bounded_increment_step bi_seen envs (BI_load, None))"
proof (rule mon_run_invariant)
  show "bi_fresh (BI_load, None)" by (simp add: bi_fresh_def)
next
  fix c g l m
  assume "bi_fresh (l, m)"
  then show "bi_fresh (snd (bounded_increment_step c g l), bi_seen c g l m)"
    by (cases l) (auto simp: bi_fresh_def bounded_increment_step_def bi_seen_def compare_exchange_weak_def)
qed

lemma lf_fresh_run:
  "lf_fresh (mon_run lock_free_increment_step lf_seen envs (LF_load, None))"
proof (rule mon_run_invariant)
  show "lf_fresh (LF_load, None)" by (simp add: lf_fresh_def)
next
  fix c g l m
  assume "lf_fresh (l, m)"
  then show "lf_fresh (snd (lock_free_increment_step c g l), lf_seen c g l m)"
    by (cases l) (auto simp: lf_fresh_def lock_free_increment_step_def lf_seen_def compare_exchange_weak_def)
qed

lemma push_fresh_run:
  "push_fresh (mon_run (push_step v) push_watch envs (PU_new, None, None))"
proof (rule mon_run_invariant)
  show "push_fresh (PU_new, None, None)" by (simp add: push_fresh_def)
next
  fix c g l m
  assume "push_fresh (l, m)"
  then show "push_fresh (snd (push_step v c g l), push_watch c g l m)"
    by (cases l) (auto simp: push_fresh_def push_step_def push_watch_def compare_exchange_weak_def
        split: option.splits)
qed

lemma pop_fresh_run:
  "pop_fresh (mon_run pop_step pop_seen envs ((PO_load, ov0), None, None))"
proof (rule mon_run_invariant)
  show "pop_fresh ((PO_load, ov0), None, None)" by (simp add: pop_fresh_def)
next
  fix c g l m
  assume "pop_fresh (l, m)"
  then show "pop_fresh (snd (pop_step c g l), pop_seen c g l m)"
    by (cases l; cases "fst l")
      (auto simp: pop_fresh_def pop_step_def pop_seen_def compare_exchange_weak_def
        split: option.splits)
qed

lemma pop_out_run:
  "pop_out_inv ov0 (mon_run pop_step pop_watch envs ((PO_load, ov0), None, None))"
proof (rule mon_run_invariant)
  show "pop_out_inv ov0 ((PO_load, ov0), None, None)" by (simp add: pop_out_inv_def)
next
  fix c g l m
  assume "pop_out_inv ov0 (l, m)"
  then show "pop_out_inv ov0 (snd (pop_step c g l), pop_watch c g l m)"
    by (cases l; cases m; cases "fst l")
      (auto simp: pop_out_inv_def pop_step_def pop_watch_def compare_exchange_weak_def
        split: option.splits)
qed


text \<open>
  C4. In each retry loop, run against any behaviour of the other threads: whenever
  \<^verbatim>\<open>bounded_increment\<close>, \<^verbatim>\<open>lock_free_increment\<close>, \<open>push\<close> or \<open>pop\<close> is about to attempt a
  compare-and-swap, its operand \<open>old\<close> is the value the shared location held at the
  thread's latest access to it (the load, or the failed attempt before). A failed
  attempt leaves the location as it is and puts its current value in \<open>old\<close>. After a
  failed attempt \<open>push\<close> goes back to the assignment \<^verbatim>\<open>new_node->next = old_head\<close> with
  the value just read, so that at the next attempt the new node points to it; \<open>pop\<close>
  goes back to the loop condition and reads \<open>next\<close> again from the node just read.
\<close>

theorem cas_retry_reobserves:
  "(mon_run bounded_increment_step bi_seen envs1 (BI_load, None) = (BI_loop old1, seen1)
      \<longrightarrow> seen1 = Some old1)
   \<and> (sint old < 100 \<and> (v \<noteq> old \<or> spur)
      \<longrightarrow> bounded_increment_step spur v (BI_loop old) = (v, BI_loop v))
   \<and> (mon_run lock_free_increment_step lf_seen envs2 (LF_load, None) = (LF_loop old2, seen2)
      \<longrightarrow> seen2 = Some old2)
   \<and> (v \<noteq> old \<or> spur
      \<longrightarrow> lock_free_increment_step spur v (LF_loop old) = (v, LF_loop v))
   \<and> (mon_run (push_step x) push_watch envs3 (PU_new, None, None) = (PU_cas a3 old3, seen3, linked3)
      \<longrightarrow> seen3 = Some old3 \<and> linked3 = Some old3)
   \<and> (head m \<noteq> oldh \<or> fst c
      \<longrightarrow> push_step x c m (PU_cas a oldh) = (m, PU_link a (head m)))
   \<and> (store m a = Some nd
      \<longrightarrow> push_step x c m (PU_link a oldh)
            = (m\<lparr>store := (store m)(a \<mapsto> Node (val nd) oldh)\<rparr>, PU_cas a oldh))
   \<and> (mon_run pop_step pop_seen envs4 ((PO_load, ov0), None, None) = ((PO_cas a4 nx4, ov4), seen4, src4)
      \<longrightarrow> seen4 = Some (Some a4) \<and> src4 = Some (a4, nx4))
   \<and> (head m \<noteq> Some a \<or> fst c
      \<longrightarrow> pop_step c m (PO_cas a nx, ov) = (m, PO_test (head m), ov))"
proof -
  have b1: "mon_run bounded_increment_step bi_seen envs1 (BI_load, None) = (BI_loop old1, seen1)
      \<longrightarrow> seen1 = Some old1"
    using bi_fresh_run [of envs1] by (auto simp: bi_fresh_def)
  have b2: "sint old < 100 \<and> (v \<noteq> old \<or> spur)
      \<longrightarrow> bounded_increment_step spur v (BI_loop old) = (v, BI_loop v)"
    by (auto simp: bounded_increment_step_def compare_exchange_weak_def)
  have l1: "mon_run lock_free_increment_step lf_seen envs2 (LF_load, None) = (LF_loop old2, seen2)
      \<longrightarrow> seen2 = Some old2"
    using lf_fresh_run [of envs2] by (auto simp: lf_fresh_def)
  have l2: "v \<noteq> old \<or> spur \<longrightarrow> lock_free_increment_step spur v (LF_loop old) = (v, LF_loop v)"
    by (auto simp: lock_free_increment_step_def compare_exchange_weak_def)
  have p1: "mon_run (push_step x) push_watch envs3 (PU_new, None, None) = (PU_cas a3 old3, seen3, linked3)
      \<longrightarrow> seen3 = Some old3 \<and> linked3 = Some old3"
    using push_fresh_run [of x envs3] by (auto simp: push_fresh_def)
  have p2: "head m \<noteq> oldh \<or> fst c \<longrightarrow> push_step x c m (PU_cas a oldh) = (m, PU_link a (head m))"
    by (auto simp: push_step_def compare_exchange_weak_def)
  have p3: "store m a = Some nd
      \<longrightarrow> push_step x c m (PU_link a oldh)
            = (m\<lparr>store := (store m)(a \<mapsto> Node (val nd) oldh)\<rparr>, PU_cas a oldh)"
    by (simp add: push_step_def)
  have q1: "mon_run pop_step pop_seen envs4 ((PO_load, ov0), None, None) = ((PO_cas a4 nx4, ov4), seen4, src4)
      \<longrightarrow> seen4 = Some (Some a4) \<and> src4 = Some (a4, nx4)"
    using pop_fresh_run [of envs4 ov0] by (auto simp: pop_fresh_def)
  have q2: "head m \<noteq> Some a \<or> fst c \<longrightarrow> pop_step c m (PO_cas a nx, ov) = (m, PO_test (head m), ov)"
    by (auto simp: pop_step_def compare_exchange_weak_def)
  from b1 b2 l1 l2 p1 p2 p3 q1 q2 show ?thesis by blast
qed

theorem cas_retry_reobserves_witness:
  "mon_run bounded_increment_step bi_seen [(False, 5), (False, 7)] (BI_load, None)
     = (BI_loop 7, Some 7)
   \<and> bounded_increment_step False 7 (BI_loop 5) = (7, BI_loop 7)
   \<and> mon_run lock_free_increment_step lf_seen [(False, 5), (True, 5), (False, 7)] (LF_load, None)
     = (LF_loop 7, Some 7)
   \<and> lock_free_increment_step False 7 (LF_loop 5) = (7, LF_loop 7)
   \<and> mon_run (push_step 4) push_watch
        [((False, 5), demo_mem (Some 1)), ((False, 0), demo_mem5 (Some 1) None),
         ((False, 0), demo_mem5 (Some 1) None), ((False, 0), demo_mem5 (Some 3) (Some 1)),
         ((False, 0), demo_mem5 (Some 3) (Some 1))] (PU_new, None, None)
     = (PU_cas 5 (Some 3), Some (Some 3), Some (Some 3))
   \<and> push_step 4 (False, 0) (demo_mem5 (Some 3) (Some 1)) (PU_cas 5 (Some 1))
     = (demo_mem5 (Some 3) (Some 1), PU_link 5 (Some 3))
   \<and> push_step 4 (False, 0) (demo_mem5 (Some 3) (Some 1)) (PU_link 5 (Some 3))
     = (demo_mem5 (Some 3) (Some 3), PU_cas 5 (Some 3))
   \<and> mon_run pop_step pop_seen
        [((False, 0), demo_mem (Some 1)), ((False, 0), demo_mem (Some 1)),
         ((False, 0), demo_mem (Some 3)), ((False, 0), demo_mem (Some 3))]
        ((PO_load, 0), None, None)
     = ((PO_cas 3 (Some 1), 0), Some (Some 3), Some (3, Some 1))
   \<and> pop_step (False, 0) (demo_mem (Some 3)) (PO_cas 1 (Some 2), 0)
     = (demo_mem (Some 3), PO_test (Some 3), 0)"
proof -
  have b: "mon_run bounded_increment_step bi_seen [(False, 5), (False, 7)] (BI_load, None)
     = (BI_loop 7, Some 7)"
    by (simp add: bounded_increment_step_def bi_seen_def compare_exchange_weak_def)
  have l: "mon_run lock_free_increment_step lf_seen [(False, 5), (True, 5), (False, 7)] (LF_load, None)
     = (LF_loop 7, Some 7)"
    by (simp add: lock_free_increment_step_def lf_seen_def compare_exchange_weak_def)
  have p: "mon_run (push_step 4) push_watch
        [((False, 5), demo_mem (Some 1)), ((False, 0), demo_mem5 (Some 1) None),
         ((False, 0), demo_mem5 (Some 1) None), ((False, 0), demo_mem5 (Some 3) (Some 1)),
         ((False, 0), demo_mem5 (Some 3) (Some 1))] (PU_new, None, None)
     = (PU_cas 5 (Some 3), Some (Some 3), Some (Some 3))"
    by (simp add: push_step_def push_watch_def compare_exchange_weak_def demo_mem_def demo_mem5_def)
  have q: "mon_run pop_step pop_seen
        [((False, 0), demo_mem (Some 1)), ((False, 0), demo_mem (Some 1)),
         ((False, 0), demo_mem (Some 3)), ((False, 0), demo_mem (Some 3))]
        ((PO_load, 0), None, None)
     = ((PO_cas 3 (Some 1), 0), Some (Some 3), Some (3, Some 1))"
    by (simp add: pop_step_def pop_seen_def compare_exchange_weak_def demo_mem_def)
  have h5: "head (demo_mem5 (Some 3) (Some 1)) = Some 3" and h3: "head (demo_mem (Some 3)) = Some 3"
    by (simp_all add: demo_mem_def demo_mem5_def)
  have s5: "store (demo_mem5 (Some 3) (Some 1)) 5 = Some (Node 4 (Some 1))"
    by (simp add: demo_mem5_def)
  have u: "(demo_mem5 (Some 3) (Some 1))\<lparr>store := (store (demo_mem5 (Some 3) (Some 1)))(5 \<mapsto> Node 4 (Some 3))\<rparr>
      = demo_mem5 (Some 3) (Some 3)"
    by (simp add: demo_mem5_def)
  have p2: "push_step 4 (False, 0) (demo_mem5 (Some 3) (Some 1)) (PU_cas 5 (Some 1))
     = (demo_mem5 (Some 3) (Some 1), PU_link 5 (Some 3))"
    using h5 cas_retry_reobserves [where m = "demo_mem5 (Some 3) (Some 1)" and oldh = "Some 1"
      and c = "(False, 0)" and a = 5 and x = 4]
    by simp
  have p3: "push_step 4 (False, 0) (demo_mem5 (Some 3) (Some 1)) (PU_link 5 (Some 3))
     = (demo_mem5 (Some 3) (Some 3), PU_cas 5 (Some 3))"
    using s5 u cas_retry_reobserves [where m = "demo_mem5 (Some 3) (Some 1)" and oldh = "Some 3"
      and c = "(False, 0)" and a = 5 and nd = "Node 4 (Some 1)" and x = 4]
    by simp
  have q2: "pop_step (False, 0) (demo_mem (Some 3)) (PO_cas 1 (Some 2), 0)
     = (demo_mem (Some 3), PO_test (Some 3), 0)"
    using h3 cas_retry_reobserves [where m = "demo_mem (Some 3)" and c = "(False, 0)" and a = 1
      and nx = "Some 2" and ov = 0]
    by simp
  have b2: "bounded_increment_step False 7 (BI_loop 5) = (7, BI_loop 7)"
    using cas_retry_reobserves [where old = 5 and v = 7 and spur = False] by simp
  have l2: "lock_free_increment_step False 7 (LF_loop 5) = (7, LF_loop 7)"
    using cas_retry_reobserves [where old = 5 and v = 7 and spur = False] by simp
  from b l p q b2 l2 p2 p3 q2 show ?thesis by (simp only: simp_thms)
qed

text \<open>
  C5. A \<open>pop\<close> on a stack whose \<open>head\<close> is the null pointer: the load leaves the memory
  as it is, and the next step of the call returns false, leaving the memory (whatever
  it holds by then) and the caller's variable as they are; no compare-and-swap is
  attempted and no fault is raised. For a thread between calls whose next call is
  \<open>pop\<close>, these are its next two steps, and they end with the result false recorded.
\<close>

theorem pop_empty:
  "head m = None \<longrightarrow>
     pop_step c m (PO_load, ov) = (m, PO_test None, ov)
     \<and> pop_step c' m' (PO_test None, ov) = (m', PO_ret False, ov)
     \<and> (th_pc th = T_idle \<and> th_todo th = Pop # ops \<longrightarrow>
          stack_thread_step c m th = (m, th\<lparr>th_todo := ops, th_pc := T_pop (PO_test None)\<rparr>)
          \<and> stack_thread_step c' m (th\<lparr>th_todo := ops, th_pc := T_pop (PO_test None)\<rparr>)
              = (m, th\<lparr>th_todo := ops, th_pc := T_idle,
                       th_rets := th_rets th @ [Ret_pop False (th_out th)]\<rparr>))"
  by (simp add: pop_step_def stack_thread_step_def in_pop_def)

theorem pop_empty_witness:
  "head \<lparr>store = Map.empty, head = None\<rparr> = None
   \<and> pop_step (False, 0) \<lparr>store = Map.empty, head = None\<rparr> (PO_load, 5)
       = (\<lparr>store = Map.empty, head = None\<rparr>, PO_test None, 5)
   \<and> pop_step (False, 0) (demo_mem (Some 1)) (PO_test None, 5) = (demo_mem (Some 1), PO_ret False, 5)
   \<and> run stack_thread_step [(0, False, 0), (0, False, 0)] (stack_init [[Pop]])
       = (\<lparr>store = Map.empty, head = None\<rparr>,
          [\<lparr>th_todo = [], th_pc = T_idle, th_out = 0, th_rets = [Ret_pop False 0]\<rparr>])"
  using pop_empty [of "\<lparr>store = Map.empty, head = None\<rparr>" "(False, 0)" 5 "(False, 0)"
      "demo_mem (Some 1)" "stack_thread [Pop]" "[]"]
  by (simp add: stack_thread_def stack_init_def sched_step_def)

text \<open>
  C10. A call of \<open>pop\<close> started with the caller's variable holding \<open>ov0\<close>, run against
  any behaviour of the other threads: when it has returned false the variable still
  holds \<open>ov0\<close>; the variable is written only by the read that follows the successful
  compare-and-swap; and when the call has returned true the variable holds the payload
  read from the node that compare-and-swap unlinked.
\<close>

theorem pop_out_parameter:
  "mon_run pop_step pop_watch envs ((PO_load, ov0), None, None) = ((pc, ov), u, tk) \<longrightarrow>
     (pc = PO_ret False \<longrightarrow> ov = ov0)
     \<and> (tk = None \<longrightarrow> ov = ov0)
     \<and> (pc = PO_ret True \<longrightarrow> (\<exists>a. u = Some a \<and> tk = Some (a, ov)))"
  using pop_out_run [of ov0 envs] by (auto simp: pop_out_inv_def split: option.splits)


theorem pop_out_parameter_witness:
  "mon_run pop_step pop_watch
      [((False, 0), demo_mem (Some 1)), ((False, 0), demo_mem (Some 1)),
       ((False, 0), demo_mem (Some 1)), ((False, 0), demo_mem (Some 2)),
       ((False, 0), demo_mem (Some 2))] ((PO_load, 5), None, None)
     = ((PO_ret True, 9), Some 1, Some (1, 9))
   \<and> mon_run pop_step pop_watch
      [((False, 0), demo_mem (Some 1)), ((False, 0), demo_mem (Some 1)),
       ((True, 0), demo_mem (Some 1)), ((False, 0), demo_mem None),
       ((False, 0), demo_mem None), ((False, 0), demo_mem None)] ((PO_load, 5), None, None)
     = ((PO_ret False, 5), None, None)"
proof -
  have a: "mon_run pop_step pop_watch
      [((False, 0), demo_mem (Some 1)), ((False, 0), demo_mem (Some 1)),
       ((False, 0), demo_mem (Some 1)), ((False, 0), demo_mem (Some 2)),
       ((False, 0), demo_mem (Some 2))] ((PO_load, 5), None, None)
     = ((PO_ret True, 9), Some 1, Some (1, 9))"
    by (simp add: pop_step_def pop_watch_def compare_exchange_weak_def demo_mem_def)
  have b: "mon_run pop_step pop_watch
      [((False, 0), demo_mem (Some 1)), ((False, 0), demo_mem (Some 1)),
       ((True, 0), demo_mem (Some 1)), ((False, 0), demo_mem None),
       ((False, 0), demo_mem None), ((False, 0), demo_mem None)] ((PO_load, 5), None, None)
     = ((PO_ret False, 5), None, None)"
    by (simp add: pop_step_def pop_watch_def compare_exchange_weak_def demo_mem_def)
  from a b
    pop_out_parameter [of "[((False, 0), demo_mem (Some 1)), ((False, 0), demo_mem (Some 1)),
       ((False, 0), demo_mem (Some 1)), ((False, 0), demo_mem (Some 2)),
       ((False, 0), demo_mem (Some 2))]" 5 "PO_ret True" 9 "Some 1" "Some (1, 9)"]
    pop_out_parameter [of "[((False, 0), demo_mem (Some 1)), ((False, 0), demo_mem (Some 1)),
       ((True, 0), demo_mem (Some 1)), ((False, 0), demo_mem None),
       ((False, 0), demo_mem None), ((False, 0), demo_mem None)]" 5 "PO_ret False" 5 None None]
  show ?thesis by simp
qed


section \<open>07: what the consumer sees after the handshake\<close>

lemma hs_inv_init: "hs_inv (handshake_init True)"
  by (simp add: hs_inv_def handshake_init_def)

lemma hs_inv_step:
  assumes "hs_inv s"
  shows "hs_inv (sched_step handshake_step s e)"
proof (cases "fst e < length (snd s)")
  case False
  with assms show ?thesis by (simp add: sched_step_eq)
next
  case True
  obtain mem ths where s: "s = (mem, ths)" by (cases s)
  from assms s obtain pp pv cp cv where ths: "ths = [(pp, pv), (cp, cv)]"
    and pp: "pp \<in> {P_sleep, P_write, P_signal, P_done}"
    and dh: "data_hist mem = (if pp \<in> {P_sleep, P_write} then [0] else [0, 42])"
    and rh: "ready_hist mem = (if pp = P_done then [(False, 0), (True, 1)] else [(False, 0)])"
    and ps: "pp = P_signal \<longrightarrow> v_data pv = 1"
    and vr: "v_ready cv < length (ready_hist mem)"
    and vd: "v_data cv < length (data_hist mem)"
    and cp: "cp = C_wait True \<and> (v_ready cv = 1 \<longrightarrow> v_data cv = 1)
              \<or> cp = C_use True \<and> v_ready cv = 1 \<and> v_data cv = 1
              \<or> cp = C_done True 42"
    by (auto simp: hs_inv_def)
  from True s ths have "fst e = 0 \<or> fst e = 1" by auto
  then show ?thesis
  proof
    assume e0: "fst e = 0"
    with s ths pp dh rh ps vr vd cp show ?thesis
      by (auto simp: sched_step_eq hs_inv_def handshake_step_def producer_step_def)
  next
    assume e1: "fst e = 1"
    from cp show ?thesis
    proof (elim disjE conjE)
      assume c: "cp = C_wait True" and v: "v_ready cv = 1 \<longrightarrow> v_data cv = 1"
      show ?thesis
      proof (cases "v_ready cv \<le> snd e \<and> snd e < length (ready_hist mem)")
        case False
        with e1 s ths pp dh rh ps vr vd c v show ?thesis
          by (auto simp: sched_step_eq hs_inv_def handshake_step_def consumer_step_def)
      next
        case True
        with e1 s ths pp dh rh ps vr vd c v show ?thesis
          by (auto simp: sched_step_eq hs_inv_def handshake_step_def consumer_step_def
              less_Suc_eq split: if_splits)
      qed
    next
      assume c: "cp = C_use True" and v: "v_ready cv = 1" "v_data cv = 1"
      with e1 s ths pp dh rh ps vr vd show ?thesis
        by (auto simp: sched_step_eq hs_inv_def handshake_step_def consumer_step_def
            less_Suc_eq split: if_splits)
    next
      assume c: "cp = C_done True 42"
      with e1 s ths pp dh rh ps vr vd show ?thesis
        by (auto simp: sched_step_eq hs_inv_def handshake_step_def consumer_step_def producer_step_def)
    qed
  qed
qed

lemma hs_inv_run: "hs_inv (run handshake_step sch (handshake_init True))"
  by (rule run_invariant) (simp_all add: hs_inv_init hs_inv_step)

text \<open>
  C6. The test with \<^verbatim>\<open>producer\<close> and \<^verbatim>\<open>consumer_correct\<close>, under every schedule and every
  choice of the writes the loads read: when the consumer's acquire load has read true
  from \<open>ready\<close> (the consumer is at the use of \<open>data\<close>), the write it read is the
  producer's release store and the consumer's view of \<open>data\<close> is the producer's write
  of 42; the assertion never fails; and the value the consumer reads is 42.
\<close>

theorem handshake_visibility:
  "run handshake_step sch (handshake_init True) = (mem, ths) \<longrightarrow>
     (\<forall>vw. ths ! 1 = (C_use True, vw) \<longrightarrow>
         ready_hist mem ! v_ready vw = (True, v_data vw) \<and> data_hist mem ! v_data vw = 42)
     \<and> (\<forall>vw. ths ! 1 \<noteq> (C_abort, vw))
     \<and> (\<forall>d vw. ths ! 1 = (C_done True d, vw) \<longrightarrow> d = 42)"
proof
  assume r: "run handshake_step sch (handshake_init True) = (mem, ths)"
  with hs_inv_run [of sch] have "hs_inv (mem, ths)" by simp
  then show "(\<forall>vw. ths ! 1 = (C_use True, vw) \<longrightarrow>
         ready_hist mem ! v_ready vw = (True, v_data vw) \<and> data_hist mem ! v_data vw = 42)
     \<and> (\<forall>vw. ths ! 1 \<noteq> (C_abort, vw))
     \<and> (\<forall>d vw. ths ! 1 = (C_done True d, vw) \<longrightarrow> d = 42)"
    by (auto simp: hs_inv_def split: if_splits)
qed

theorem handshake_visibility_witness:
  "run handshake_step [(1, 0), (0, 0), (0, 0), (1, 0), (0, 0), (1, 0), (1, 1), (1, 1)]
      (handshake_init True)
     = (\<lparr>data_hist = [0, 42], ready_hist = [(False, 0), (True, 1)]\<rparr>,
        [(P_done, \<lparr>v_data = 1, v_ready = 1\<rparr>), (C_done True 42, \<lparr>v_data = 1, v_ready = 1\<rparr>)])
   \<and> run handshake_step [(1, 0), (0, 0), (0, 0), (1, 0), (0, 0), (1, 0), (1, 1)]
      (handshake_init True)
     = (\<lparr>data_hist = [0, 42], ready_hist = [(False, 0), (True, 1)]\<rparr>,
        [(P_done, \<lparr>v_data = 1, v_ready = 1\<rparr>), (C_use True, \<lparr>v_data = 1, v_ready = 1\<rparr>)])"
proof -
  have a: "run handshake_step [(1, 0), (0, 0), (0, 0), (1, 0), (0, 0), (1, 0), (1, 1), (1, 1)]
      (handshake_init True)
     = (\<lparr>data_hist = [0, 42], ready_hist = [(False, 0), (True, 1)]\<rparr>,
        [(P_done, \<lparr>v_data = 1, v_ready = 1\<rparr>), (C_done True 42, \<lparr>v_data = 1, v_ready = 1\<rparr>)])"
    by (simp add: handshake_init_def sched_step_def handshake_step_def producer_step_def
        consumer_step_def)
  have b: "run handshake_step [(1, 0), (0, 0), (0, 0), (1, 0), (0, 0), (1, 0), (1, 1)]
      (handshake_init True)
     = (\<lparr>data_hist = [0, 42], ready_hist = [(False, 0), (True, 1)]\<rparr>,
        [(P_done, \<lparr>v_data = 1, v_ready = 1\<rparr>), (C_use True, \<lparr>v_data = 1, v_ready = 1\<rparr>)])"
    by (simp add: handshake_init_def sched_step_def handshake_step_def producer_step_def
        consumer_step_def)
  from a b
    handshake_visibility [of "[(1, 0), (0, 0), (0, 0), (1, 0), (0, 0), (1, 0), (1, 1), (1, 1)]"
      "\<lparr>data_hist = [0, 42], ready_hist = [(False, 0), (True, 1)]\<rparr>"
      "[(P_done, \<lparr>v_data = 1, v_ready = 1\<rparr>), (C_done True 42, \<lparr>v_data = 1, v_ready = 1\<rparr>)]"]
    handshake_visibility [of "[(1, 0), (0, 0), (0, 0), (1, 0), (0, 0), (1, 0), (1, 1)]"
      "\<lparr>data_hist = [0, 42], ready_hist = [(False, 0), (True, 1)]\<rparr>"
      "[(P_done, \<lparr>v_data = 1, v_ready = 1\<rparr>), (C_use True, \<lparr>v_data = 1, v_ready = 1\<rparr>)]"]
  show ?thesis by simp
qed

text \<open>
  The same memory lets \<^verbatim>\<open>consumer_broken\<close> read the stale 0 after it has read true
  from \<open>ready\<close>: its relaxed load brings no view of \<open>data\<close> with it.
\<close>

lemma relaxed_consumer_stale:
  "run handshake_step [(1, 0), (0, 0), (0, 0), (1, 0), (0, 0), (1, 0), (1, 1), (1, 0)]
      (handshake_init False)
     = (\<lparr>data_hist = [0, 42], ready_hist = [(False, 0), (True, 1)]\<rparr>,
        [(P_done, \<lparr>v_data = 1, v_ready = 1\<rparr>), (C_done False 0, \<lparr>v_data = 0, v_ready = 1\<rparr>)])"
  by (simp add: handshake_init_def sched_step_def handshake_step_def producer_step_def
      consumer_step_def)


end
